theory Spec2Isabelle
  imports Complex_Main "HOL-Library.Word"
begin

section \<open>External collaborators\<close>

text \<open>
  The collision set of \<^verbatim>\<open>CollisionSet.cpp\<close> borrows bodies through pointers and asks
  their masks and governments questions. Pointers are addresses (natural numbers),
  \<^verbatim>\<open>nullptr\<close> is \<open>None\<close>, a \<^verbatim>\<open>double\<close> is a real number (NaN and infinities are
  outside the model; the rounded difference and sum from which \<^verbatim>\<open>Add\<close> and \<^verbatim>\<open>Ring\<close> take
  their grid cells are operations of the world, see below) and an \<^verbatim>\<open>int\<close> is a
  mathematical integer (world coordinates are taken to lie in the range of a 32-bit
  \<^verbatim>\<open>int\<close>, where the casts and sums of the source are defined).
\<close>

type_synonym Point = "real \<times> real"
type_synonym BodyPtr = nat
type_synonym GovPtr = nat

record Body =
  Position :: Point
  Radius :: real
  Facing :: real
  GetGovernment :: "GovPtr option"

text \<open>
  The world outside the collision set: the body every pointer refers to, the two mask
  queries of a body at an animation step (\<^verbatim>\<open>body->GetMask(step).Collide(offset, velocity,
  facing)\<close> and \<^verbatim>\<open>.WithinRing(offset, facing, inner, outer)\<close>), the enmity predicate
  \<^verbatim>\<open>iGov->IsEnemy(pGov)\<close>, and the machine's subtraction and addition of two doubles,
  which \<^verbatim>\<open>Add\<close> and \<^verbatim>\<open>Ring\<close> apply to a coordinate and a radius before the conversion to
  \<^verbatim>\<open>int\<close>. The two operations round their result to a double; how they round is not
  modelled, they are parameters, and every statement below holds for whatever they
  return.
\<close>

record World =
  deref :: "BodyPtr \<Rightarrow> Body"
  Collide :: "BodyPtr \<Rightarrow> int \<Rightarrow> Point \<Rightarrow> Point \<Rightarrow> real \<Rightarrow> real"
  WithinRing :: "BodyPtr \<Rightarrow> int \<Rightarrow> Point \<Rightarrow> real \<Rightarrow> real \<Rightarrow> real \<Rightarrow> bool"
  IsEnemy :: "GovPtr \<Rightarrow> GovPtr \<Rightarrow> bool"
  minus_double :: "real \<Rightarrow> real \<Rightarrow> real"
  plus_double :: "real \<Rightarrow> real \<Rightarrow> real"

text \<open>
  Modelled from the spec: \<^verbatim>\<open>Point\<close> (a 2D vector of doubles, section 6), whose
  difference, sum, scaling, Euclidean \<^verbatim>\<open>Length\<close> and \<^verbatim>\<open>Unit\<close> the source uses; the
  class itself is not among the source files.
\<close>

definition Point_minus :: "Point \<Rightarrow> Point \<Rightarrow> Point" where
  "Point_minus a b = (fst a - fst b, snd a - snd b)"

definition Point_plus :: "Point \<Rightarrow> Point \<Rightarrow> Point" where
  "Point_plus a b = (fst a + fst b, snd a + snd b)"

definition Point_times :: "Point \<Rightarrow> real \<Rightarrow> Point" where
  "Point_times a k = (fst a * k, snd a * k)"

definition Length :: "Point \<Rightarrow> real" where
  "Length a = sqrt (fst a * fst a + snd a * snd a)"

definition Unit :: "Point \<Rightarrow> Point" where
  "Unit a = (if fst a * fst a + snd a * snd a = 0 then (1, 0)
             else (fst a / Length a, snd a / Length a))"

text \<open>\<^verbatim>\<open>static_cast<int>(d)\<close> and the implicit conversion of a double to \<^verbatim>\<open>int\<close>:
  truncation towards zero.\<close>

definition to_int :: "real \<Rightarrow> int" where
  "to_int d = (if 0 \<le> d then \<lfloor>d\<rfloor> else - \<lfloor>- d\<rfloor>)"

section \<open>The collision set\<close>

record Entry =
  body :: BodyPtr
  seenIndex :: nat
  cell_x :: int
  cell_y :: int

record CollisionSet =
  CELL_SIZE :: nat
  SHIFT :: nat
  CELL_MASK :: nat
  CELLS :: nat
  WRAP_MASK :: nat
  step :: int
  all_bodies :: "BodyPtr list"
  added :: "Entry list"
  sorted_entries :: "Entry list"
  counts :: "nat list"
  result :: "BodyPtr list"
  seen :: "32 word list"
  seenEpoch :: "32 word"

text \<open>The file-level state of \<^verbatim>\<open>CollisionSet.cpp\<close>: the \<^verbatim>\<open>warned\<close> latch, and the
  messages handed to \<^verbatim>\<open>Logger::LogError\<close> so far.\<close>

record Process =
  warned :: bool
  errorLog :: "string list"

definition MAX_VELOCITY :: int where
  "MAX_VELOCITY = 450000"

definition USED_MAX_VELOCITY :: int where
  "USED_MAX_VELOCITY = MAX_VELOCITY - 1"

subsection \<open>Construction, Clear, Add, Finish\<close>

text \<open>\<^verbatim>\<open>while(cellSize >>= 1u) ++SHIFT;\<close>\<close>

fun shift_of :: "nat \<Rightarrow> nat" where
  "shift_of c = (if c div 2 = 0 then 0 else Suc (shift_of (c div 2)))"

text \<open>\<^verbatim>\<open>CELLS = 1u; while(cellCount >>= 1u) CELLS <<= 1;\<close>\<close>

fun cells_of :: "nat \<Rightarrow> nat" where
  "cells_of c = (if c div 2 = 0 then 1 else 2 * cells_of (c div 2))"

text \<open>\<^verbatim>\<open>Clear\<close>. The size \<^verbatim>\<open>CELLS * CELLS + 2u\<close> is computed in 32-bit unsigned
  arithmetic.\<close>

definition Clear :: "int \<Rightarrow> CollisionSet \<Rightarrow> CollisionSet" where
  "Clear s cs = cs\<lparr>step := s, added := [], sorted_entries := [], all_bodies := [],
     counts := replicate ((CELLS cs * CELLS cs + 2) mod 2 ^ 32) 0\<rparr>"

text \<open>The constructor. Members it does not initialise (\<^verbatim>\<open>result\<close>, \<^verbatim>\<open>seen\<close>,
  \<^verbatim>\<open>seenEpoch\<close>) are parameters of the model.\<close>

definition CollisionSet_new ::
  "nat \<Rightarrow> nat \<Rightarrow> 32 word list \<Rightarrow> 32 word \<Rightarrow> CollisionSet" where
  "CollisionSet_new cellSize cellCount seen0 epoch0 =
     Clear 0 \<lparr>CELL_SIZE = 2 ^ shift_of cellSize, SHIFT = shift_of cellSize,
       CELL_MASK = 2 ^ shift_of cellSize - 1,
       CELLS = cells_of cellCount, WRAP_MASK = cells_of cellCount - 1,
       step = 0, all_bodies = [], added = [], sorted_entries = [], counts = [],
       result = [], seen = seen0, seenEpoch = epoch0\<rparr>"

text \<open>\<^verbatim>\<open>(y & WRAP_MASK) * CELLS + (x & WRAP_MASK)\<close>: the bin of a signed grid cell. The
  index is a 32-bit \<^verbatim>\<open>unsigned\<close>, as are the indices \<^verbatim>\<open>index + 1\<close> and \<^verbatim>\<open>index + 2\<close> made
  from it: their arithmetic wraps around at \<open>2 ^ 32\<close>.\<close>

definition bin_index :: "CollisionSet \<Rightarrow> int \<Rightarrow> int \<Rightarrow> nat" where
  "bin_index cs x y =
     (nat (and y (int (WRAP_MASK cs))) * CELLS cs + nat (and x (int (WRAP_MASK cs)))) mod 2 ^ 32"

text \<open>The body of the inner loop of \<^verbatim>\<open>Add\<close>.\<close>

definition add_cell :: "BodyPtr \<Rightarrow> int \<Rightarrow> int \<Rightarrow> CollisionSet \<Rightarrow> CollisionSet" where
  "add_cell b y x cs =
     (let i = (bin_index cs x y + 2) mod 2 ^ 32
      in cs\<lparr>added := added cs @
               [\<lparr>body = b, seenIndex = length (all_bodies cs), cell_x = x, cell_y = y\<rparr>],
            counts := (counts cs)[i := counts cs ! i + 1]\<rparr>)"

text \<open>\<^verbatim>\<open>Add\<close>. The differences and sums of a coordinate and the radius are the machine's,
  on doubles.\<close>

definition Add :: "World \<Rightarrow> BodyPtr \<Rightarrow> CollisionSet \<Rightarrow> CollisionSet" where
  "Add w b cs =
     (let p = Position (deref w b); r = Radius (deref w b);
          minX = drop_bit (SHIFT cs) (to_int (minus_double w (fst p) r));
          minY = drop_bit (SHIFT cs) (to_int (minus_double w (snd p) r));
          maxX = drop_bit (SHIFT cs) (to_int (plus_double w (fst p) r));
          maxY = drop_bit (SHIFT cs) (to_int (plus_double w (snd p) r));
          cs1 = fold (\<lambda>y. fold (add_cell b y) [minX..maxX]) [minY..maxY] cs
      in cs1\<lparr>all_bodies := all_bodies cs1 @ [b]\<rparr>)"

text \<open>\<^verbatim>\<open>std::partial_sum\<close> in place: every slot becomes the sum of the slots up to it.\<close>

fun partial_sum :: "nat \<Rightarrow> nat list \<Rightarrow> nat list" where
  "partial_sum acc [] = []"
| "partial_sum acc (c # cs) = (acc + c) # partial_sum (acc + c) cs"

text \<open>One iteration of the radix-sort loop of \<^verbatim>\<open>Finish\<close>:
  \<^verbatim>\<open>sorted[counts[index]++] = entry\<close> with \<^verbatim>\<open>index = gy * CELLS + gx + 1\<close>.\<close>

definition place :: "Entry \<Rightarrow> CollisionSet \<Rightarrow> CollisionSet" where
  "place e cs =
     (let i = (bin_index cs (cell_x e) (cell_y e) + 1) mod 2 ^ 32
      in cs\<lparr>sorted_entries := (sorted_entries cs)[counts cs ! i := e],
            counts := (counts cs)[i := counts cs ! i + 1]\<rparr>)"

text \<open>\<^verbatim>\<open>sorted.resize(added.size())\<close> fills the table with default entries.\<close>

definition default_Entry :: Entry where
  "default_Entry = \<lparr>body = 0, seenIndex = 0, cell_x = 0, cell_y = 0\<rparr>"

definition Finish :: "CollisionSet \<Rightarrow> CollisionSet" where
  "Finish cs =
     (let cs1 = cs\<lparr>counts := partial_sum 0 (counts cs)\<rparr>;
          cs2 = cs1\<lparr>sorted_entries := replicate (length (added cs1)) default_Entry\<rparr>;
          cs3 = fold place (added cs2) cs2
      in cs3\<lparr>seen := replicate (length (all_bodies cs3)) 0, seenEpoch := 0\<rparr>)"

text \<open>An index as the engine builds it each step: \<^verbatim>\<open>Clear\<close>, one \<^verbatim>\<open>Add\<close> per body,
  \<^verbatim>\<open>Finish\<close>.\<close>

definition build :: "World \<Rightarrow> int \<Rightarrow> BodyPtr list \<Rightarrow> CollisionSet \<Rightarrow> CollisionSet" where
  "build w s bs cs = Finish (fold (Add w) bs (Clear s cs))"

subsection \<open>Queries\<close>

text \<open>The slice of the sorted table between \<^verbatim>\<open>counts[i]\<close> and \<^verbatim>\<open>counts[i + 1]\<close>,
  which the queries walk with a pair of iterators.\<close>

definition bin :: "CollisionSet \<Rightarrow> nat \<Rightarrow> Entry list" where
  "bin cs i =
     take (counts cs ! ((i + 1) mod 2 ^ 32) - counts cs ! i) (drop (counts cs ! i) (sorted_entries cs))"

record Closest =
  closest_dist :: real
  closest_body :: "BodyPtr option"

definition TryNearer :: "real \<Rightarrow> BodyPtr \<Rightarrow> Closest \<Rightarrow> Closest" where
  "TryNearer new_closest new_body c =
     (if new_closest \<ge> closest_dist c then c
      else \<lparr>closest_dist = new_closest, closest_body = Some new_body\<rparr>)"

text \<open>
  What a scan of grid cells carries along: the closest collision so far and the
  \<^verbatim>\<open>seen\<close> vector, and, for the statements below, two logs the source does not keep:
  the entries that reached the government check (\<open>considered\<close>) and the entries whose
  mask was asked, with the answer (\<open>tested\<close>).
\<close>

record Scan =
  closer_result :: Closest
  marks :: "32 word list"
  considered :: "Entry list"
  tested :: "(Entry \<times> real) list"

record Segment =
  seg_from :: Point
  seg_to :: Point
  seg_pGov :: "GovPtr option"
  seg_target :: "BodyPtr option"

text \<open>The condition under which an entry is skipped:
  \<^verbatim>\<open>it->body != target && iGov && pGov && !iGov->IsEnemy(pGov)\<close>.\<close>

definition skips :: "World \<Rightarrow> Segment \<Rightarrow> BodyPtr \<Rightarrow> bool" where
  "skips w q b =
     (Some b \<noteq> seg_target q \<and>
      (case GetGovernment (deref w b) of None \<Rightarrow> False
       | Some iGov \<Rightarrow> (case seg_pGov q of None \<Rightarrow> False
           | Some pGov \<Rightarrow> \<not> IsEnemy w iGov pGov)))"

text \<open>The government check and the mask test, the same lines on both paths of
  \<^verbatim>\<open>Line\<close>.\<close>

definition probe :: "World \<Rightarrow> CollisionSet \<Rightarrow> Segment \<Rightarrow> Entry \<Rightarrow> Scan \<Rightarrow> Scan" where
  "probe w cs q e sc =
     (let sc1 = sc\<lparr>considered := considered sc @ [e]\<rparr>
      in if skips w q (body e) then sc1
         else
           (let offset = Point_minus (seg_from q) (Position (deref w (body e)));
                range = Collide w (body e) (step cs) offset
                          (Point_minus (seg_to q) (seg_from q)) (Facing (deref w (body e)))
            in sc1\<lparr>closer_result := TryNearer range (body e) (closer_result sc1),
                   tested := tested sc1 @ [(e, range)]\<rparr>))"

text \<open>The loop body of the single-cell path.\<close>

definition visit_single :: "World \<Rightarrow> CollisionSet \<Rightarrow> Segment \<Rightarrow> int \<Rightarrow> int \<Rightarrow> Entry \<Rightarrow> Scan \<Rightarrow> Scan" where
  "visit_single w cs q gx gy e sc =
     (if cell_x e \<noteq> gx \<or> cell_y e \<noteq> gy then sc else probe w cs q e sc)"

text \<open>The loop body of the stepped traversal, with the \<^verbatim>\<open>seen\<close> markers.\<close>

definition visit_stepped :: "World \<Rightarrow> CollisionSet \<Rightarrow> Segment \<Rightarrow> int \<Rightarrow> int \<Rightarrow> Entry \<Rightarrow> Scan \<Rightarrow> Scan" where
  "visit_stepped w cs q gx gy e sc =
     (if cell_x e \<noteq> gx \<or> cell_y e \<noteq> gy then sc
      else if marks sc ! seenIndex e = seenEpoch cs then sc
      else probe w cs q e (sc\<lparr>marks := (marks sc)[seenIndex e := seenEpoch cs]\<rparr>))"

text \<open>The constants of one stepped traversal, and its loop variables.\<close>

record Slope =
  endGX :: int
  endGY :: int
  stepX :: int
  stepY :: int
  mx :: "64 word"
  my :: "64 word"
  fullScale :: "64 word"

record Walk =
  gx :: int
  gy :: int
  rx :: "64 word"
  ry :: "64 word"
  scan :: Scan

text \<open>
  How one round of the \<^verbatim>\<open>while(true)\<close> loop of \<^verbatim>\<open>Line\<close> ends, after the scan of the
  current cell: the loop is left (\<open>Stop\<close>: a collision was found, the final cell was
  reached, or the next corner step would pass it), a division by zero traps
  (\<open>Trap\<close>), or the walk moves on to a next cell (\<open>Go\<close>). The source's arithmetic on
  \<^verbatim>\<open>uint64_t\<close> wraps, and \<^verbatim>\<open>diff\<close> reads the difference as a signed 64-bit value.
\<close>

datatype Move = Stop | Trap | Go Walk

definition move :: "Slope \<Rightarrow> Walk \<Rightarrow> Scan \<Rightarrow> Move" where
  "move k st sc =
     (if closest_body (closer_result sc) \<noteq> None \<or> (gx st = endGX k \<and> gy st = endGY k)
      then Stop
      else
        (let diff = sint (rx st * my k - ry st * mx k)
         in if diff = 0 then
              (if gx st = endGX k \<and> gy st + stepY k = endGY k then Stop
               else if gy st = endGY k \<and> gx st + stepX k = endGX k then Stop
               else Go \<lparr>gx = gx st + stepX k, gy = gy st + stepY k,
                        rx = fullScale k, ry = fullScale k, scan = sc\<rparr>)
            else if diff < 0 then
              (if mx k = 0 then Trap
               else Go \<lparr>gx = gx st + stepX k, gy = gy st,
                        rx = fullScale k, ry = ry st - my k * (rx st div mx k), scan = sc\<rparr>)
            else
              (if my k = 0 then Trap
               else Go \<lparr>gx = gx st, gy = gy st + stepY k,
                        rx = rx st - mx k * (ry st div my k), ry = fullScale k, scan = sc\<rparr>)))"

text \<open>The scan of the bin of one grid cell in the stepped traversal.\<close>

definition scan_cell :: "World \<Rightarrow> CollisionSet \<Rightarrow> Segment \<Rightarrow> int \<times> int \<Rightarrow> Scan \<Rightarrow> Scan" where
  "scan_cell w cs q c sc =
     fold (visit_stepped w cs q (fst c) (snd c)) (bin cs (bin_index cs (fst c) (snd c))) sc"

text \<open>
  The \<^verbatim>\<open>while(true)\<close> loop of \<^verbatim>\<open>Line\<close>. \<open>None\<close> is a call that does not return: the
  loop runs forever, or a division by zero traps.
\<close>

partial_function (option) Line_loop ::
  "World \<Rightarrow> CollisionSet \<Rightarrow> Segment \<Rightarrow> Slope \<Rightarrow> Walk \<Rightarrow> Scan option" where
  "Line_loop w cs q k st =
     (let sc = scan_cell w cs q (gx st, gy st) (scan st)
      in case move k st sc of
           Stop \<Rightarrow> Some sc
         | Trap \<Rightarrow> None
         | Go st' \<Rightarrow> Line_loop w cs q k st')"

text \<open>What a call of \<^verbatim>\<open>Line\<close> leaves behind: the returned pointer, the value behind
  \<^verbatim>\<open>closestHit\<close> (\<open>None\<close> for a null pointer), the collision set, the file-level state,
  and the two logs of the scan.\<close>

record LineOut =
  hit :: "BodyPtr option"
  closestHit_out :: "real option"
  cs_out :: CollisionSet
  proc_out :: Process
  line_considered :: "Entry list"
  line_tested :: "(Entry \<times> real) list"

definition start_scan :: "CollisionSet \<Rightarrow> real option \<Rightarrow> Scan" where
  "start_scan cs closestHit =
     \<lparr>closer_result = \<lparr>closest_dist = (case closestHit of Some h \<Rightarrow> h | None \<Rightarrow> 1),
                        closest_body = None\<rparr>,
      marks = seen cs, considered = [], tested = []\<rparr>"

text \<open>The common tail of both paths: write the distance back when it is below 1 and a
  pointer was given, and return the closest body.\<close>

definition finish_line :: "real option \<Rightarrow> CollisionSet \<Rightarrow> Process \<Rightarrow> Scan \<Rightarrow> LineOut" where
  "finish_line closestHit cs p sc =
     \<lparr>hit = closest_body (closer_result sc),
      closestHit_out =
        (if closest_dist (closer_result sc) < 1 \<and> closestHit \<noteq> None
         then Some (closest_dist (closer_result sc)) else closestHit),
      cs_out = cs\<lparr>seen := marks sc\<rparr>, proc_out = p,
      line_considered = considered sc, line_tested = tested sc\<rparr>"

definition same_cell :: "CollisionSet \<Rightarrow> Point \<Rightarrow> Point \<Rightarrow> bool" where
  "same_cell cs from to =
     (drop_bit (SHIFT cs) (to_int (fst from)) = drop_bit (SHIFT cs) (to_int (fst to)) \<and>
      drop_bit (SHIFT cs) (to_int (snd from)) = drop_bit (SHIFT cs) (to_int (snd to)))"

text \<open>The constants and the first loop state of the stepped traversal.\<close>

definition slope_of :: "CollisionSet \<Rightarrow> Point \<Rightarrow> Point \<Rightarrow> Slope" where
  "slope_of cs from to =
     (let x = to_int (fst from); y = to_int (snd from);
          endX = to_int (fst to); endY = to_int (snd to);
          m_x = (word_of_int \<bar>endX - x\<bar> :: 64 word);
          m_y = (word_of_int \<bar>endY - y\<bar> :: 64 word);
          scale = max m_x 1 * max m_y 1
      in \<lparr>endGX = drop_bit (SHIFT cs) endX, endGY = drop_bit (SHIFT cs) endY,
          stepX = (if x \<le> endX then 1 else -1), stepY = (if y \<le> endY then 1 else -1),
          mx = m_x, my = m_y, fullScale = word_of_nat (CELL_SIZE cs) * scale\<rparr>)"

definition first_walk :: "CollisionSet \<Rightarrow> Point \<Rightarrow> Point \<Rightarrow> Scan \<Rightarrow> Walk" where
  "first_walk cs from to sc =
     (let x = to_int (fst from); y = to_int (snd from);
          k = slope_of cs from to;
          scale = max (mx k) 1 * max (my k) 1;
          r_x = scale * word_of_int (and x (int (CELL_MASK cs)));
          r_y = scale * word_of_int (and y (int (CELL_MASK cs)))
      in \<lparr>gx = drop_bit (SHIFT cs) x, gy = drop_bit (SHIFT cs) y,
          rx = (if stepX k > 0 then fullScale k - r_x else r_x),
          ry = (if stepY k > 0 then fullScale k - r_y else r_y),
          scan = sc\<rparr>)"

definition warning :: string where
  "warning = ''Warning: maximum projectile velocity is 450000''"

text \<open>The single-cell path of \<^verbatim>\<open>Line\<close>: only the bin of the start cell is scanned.\<close>

definition Line_single ::
  "World \<Rightarrow> Point \<Rightarrow> Point \<Rightarrow> real option \<Rightarrow> GovPtr option \<Rightarrow> BodyPtr option \<Rightarrow>
   CollisionSet \<Rightarrow> Process \<Rightarrow> LineOut" where
  "Line_single w from to closestHit pGov target cs p =
     (let q = \<lparr>seg_from = from, seg_to = to, seg_pGov = pGov, seg_target = target\<rparr>;
          g_x = drop_bit (SHIFT cs) (to_int (fst from));
          g_y = drop_bit (SHIFT cs) (to_int (snd from))
      in finish_line closestHit cs p
           (fold (visit_single w cs q g_x g_y) (bin cs (bin_index cs g_x g_y))
              (start_scan cs closestHit)))"

text \<open>The stepped traversal of \<^verbatim>\<open>Line\<close>, from \<^verbatim>\<open>stepX\<close> to the end of the function.\<close>

definition Line_stepped ::
  "World \<Rightarrow> Point \<Rightarrow> Point \<Rightarrow> real option \<Rightarrow> GovPtr option \<Rightarrow> BodyPtr option \<Rightarrow>
   CollisionSet \<Rightarrow> Process \<Rightarrow> LineOut option" where
  "Line_stepped w from to closestHit pGov target cs p =
     (let q = \<lparr>seg_from = from, seg_to = to, seg_pGov = pGov, seg_target = target\<rparr>;
          cs1 = cs\<lparr>seenEpoch := seenEpoch cs + 1\<rparr>
      in map_option (finish_line closestHit cs1 p)
           (Line_loop w cs1 q (slope_of cs from to)
              (first_walk cs from to (start_scan cs closestHit))))"

text \<open>The end point of a segment cut to \<^verbatim>\<open>USED_MAX_VELOCITY\<close>, and the effect of the
  one-time warning.\<close>

definition newEnd :: "Point \<Rightarrow> Point \<Rightarrow> Point" where
  "newEnd from to =
     Point_plus from (Point_times (Unit (Point_minus to from)) (real_of_int USED_MAX_VELOCITY))"

definition warn :: "Process \<Rightarrow> Process" where
  "warn p = (if warned p then p else p\<lparr>errorLog := errorLog p @ [warning], warned := True\<rparr>)"

text \<open>\<^verbatim>\<open>CollisionSet::Line(from, to, closestHit, pGov, target)\<close>. \<open>None\<close> is a call that
  does not return.\<close>

partial_function (option) Line ::
  "World \<Rightarrow> Point \<Rightarrow> Point \<Rightarrow> real option \<Rightarrow> GovPtr option \<Rightarrow> BodyPtr option \<Rightarrow>
   CollisionSet \<Rightarrow> Process \<Rightarrow> LineOut option" where
  "Line w from to closestHit pGov target cs p =
     (if same_cell cs from to then Some (Line_single w from to closestHit pGov target cs p)
      else if Length (Point_minus to from) > real_of_int MAX_VELOCITY then
        Line w from (newEnd from to) closestHit pGov target cs (warn p)
      else Line_stepped w from to closestHit pGov target cs p)"

text \<open>The loop body of \<^verbatim>\<open>Ring\<close>; the second component logs the entries whose
  acceptance test (centre in the annulus, or the mask's \<^verbatim>\<open>WithinRing\<close>) was run.\<close>

definition visit_ring ::
  "World \<Rightarrow> Point \<Rightarrow> real \<Rightarrow> real \<Rightarrow> int \<Rightarrow> int \<Rightarrow> Entry \<Rightarrow>
   CollisionSet \<times> Entry list \<Rightarrow> CollisionSet \<times> Entry list" where
  "visit_ring w center inner outer x y e st =
     (let cs = fst st
      in if cell_x e \<noteq> x \<or> cell_y e \<noteq> y then st
         else if seen cs ! seenIndex e = seenEpoch cs then st
         else
           (let cs1 = cs\<lparr>seen := (seen cs)[seenIndex e := seenEpoch cs]\<rparr>;
                offset = Point_minus center (Position (deref w (body e)));
                len = Length offset
            in if (len \<le> outer \<and> len \<ge> inner)
                  \<or> WithinRing w (body e) (step cs) offset (Facing (deref w (body e))) inner outer
               then (cs1\<lparr>result := result cs1 @ [body e]\<rparr>, snd st @ [e])
               else (cs1, snd st @ [e])))"

definition Ring ::
  "World \<Rightarrow> Point \<Rightarrow> real \<Rightarrow> real \<Rightarrow> CollisionSet \<Rightarrow> CollisionSet \<times> Entry list" where
  "Ring w center inner outer cs =
     (let minX = drop_bit (SHIFT cs) (to_int (minus_double w (fst center) outer));
          minY = drop_bit (SHIFT cs) (to_int (minus_double w (snd center) outer));
          maxX = drop_bit (SHIFT cs) (to_int (plus_double w (fst center) outer));
          maxY = drop_bit (SHIFT cs) (to_int (plus_double w (snd center) outer));
          cs1 = cs\<lparr>seenEpoch := seenEpoch cs + 1, result := []\<rparr>
      in fold (\<lambda>y. fold (\<lambda>x. fold (visit_ring w center inner outer x y)
                                 (bin cs (bin_index cs x y)))
                         [minX..maxX])
           [minY..maxY] (cs1, []))"

definition Circle ::
  "World \<Rightarrow> Point \<Rightarrow> real \<Rightarrow> CollisionSet \<Rightarrow> CollisionSet \<times> Entry list" where
  "Circle w center radius cs = Ring w center 0 radius cs"

text \<open>Whether \<^verbatim>\<open>Line\<close> cuts the segment (it left the single-cell path and is longer than
  \<^verbatim>\<open>MAX_VELOCITY\<close>), and the end point it then works with.\<close>

definition clamps :: "CollisionSet \<Rightarrow> Point \<Rightarrow> Point \<Rightarrow> bool" where
  "clamps cs from to =
     (\<not> same_cell cs from to \<and> Length (Point_minus to from) > real_of_int MAX_VELOCITY)"

definition used_end :: "CollisionSet \<Rightarrow> Point \<Rightarrow> Point \<Rightarrow> Point" where
  "used_end cs from to = (if clamps cs from to then newEnd from to else to)"

subsection \<open>Notions for the statements\<close>

text \<open>
  A stepped traversal that starts in state \<open>st\<close> and ends with scan state \<open>sc\<close> has
  scanned the start cell and then the cells \<open>cells\<close>, in this order, and no scan but
  the last one left a closest body behind.
\<close>

definition walked :: "World \<Rightarrow> CollisionSet \<Rightarrow> Segment \<Rightarrow> Walk \<Rightarrow> Scan \<Rightarrow> (int \<times> int) list \<Rightarrow> bool" where
  "walked w cs q st sc cells =
     (sc = fold (scan_cell w cs q) ((gx st, gy st) # cells) (scan st) \<and>
      (\<forall>n < length cells. closest_body (closer_result
          (fold (scan_cell w cs q) (take (Suc n) ((gx st, gy st) # cells)) (scan st))) = None))"


text \<open>The segment a call of \<^verbatim>\<open>Line\<close> works with, and the file-level state it leaves.\<close>

definition segment_of :: "CollisionSet \<Rightarrow> Point \<Rightarrow> Point \<Rightarrow> GovPtr option \<Rightarrow> BodyPtr option \<Rightarrow> Segment" where
  "segment_of cs a b pGov target =
     \<lparr>seg_from = a, seg_to = used_end cs a b, seg_pGov = pGov, seg_target = target\<rparr>"

definition proc_after :: "CollisionSet \<Rightarrow> Point \<Rightarrow> Point \<Rightarrow> Process \<Rightarrow> Process" where
  "proc_after cs a b p = (if clamps cs a b then warn p else p)"


text \<open>The answer of a body's mask to the ray of a segment, as \<^verbatim>\<open>Line\<close> asks for it.\<close>

definition ray :: "World \<Rightarrow> CollisionSet \<Rightarrow> Segment \<Rightarrow> BodyPtr \<Rightarrow> real" where
  "ray w cs q bd =
     Collide w bd (step cs) (Point_minus (seg_from q) (Position (deref w bd)))
       (Point_minus (seg_to q) (seg_from q)) (Facing (deref w bd))"

definition nearest :: "real \<Rightarrow> (Entry \<times> real) list \<Rightarrow> Closest" where
  "nearest h0 xs = fold (\<lambda>x. TryNearer (snd x) (body (fst x))) xs
                      \<lparr>closest_dist = h0, closest_body = None\<rparr>"


text \<open>What a scan maintains: the closest collision is the one \<^verbatim>\<open>TryNearer\<close> builds
  from the tested entries, every tested entry is an entry of the table with the answer
  of its mask, and the tested entries are the considered ones that are not skipped.\<close>

definition scan_ok :: "World \<Rightarrow> CollisionSet \<Rightarrow> Segment \<Rightarrow> real \<Rightarrow> Scan \<Rightarrow> bool" where
  "scan_ok w cs q h0 s =
     (closer_result s = nearest h0 (tested s) \<and>
      (\<forall>x \<in> set (tested s). snd x = ray w cs q (body (fst x)) \<and> fst x \<in> set (sorted_entries cs)) \<and>
      map fst (tested s) = filter (\<lambda>e. \<not> skips w q (body e)) (considered s))"

text \<open>
  A sequence of calls of \<^verbatim>\<open>Line\<close> in one process: every call has its own arguments and
  collision set (in whatever state), and all of them share the file-level state. The
  sequence stops where a call does not return.
\<close>

record LineCall =
  call_world :: World
  call_set :: CollisionSet
  call_from :: Point
  call_to :: Point
  call_closestHit :: "real option"
  call_pGov :: "GovPtr option"
  call_target :: "BodyPtr option"

fun run_lines :: "LineCall list \<Rightarrow> Process \<Rightarrow> Process option" where
  "run_lines [] p = Some p"
| "run_lines (c # calls) p =
     (case Line (call_world c) (call_from c) (call_to c) (call_closestHit c) (call_pGov c)
             (call_target c) (call_set c) p of
        None \<Rightarrow> None
      | Some out \<Rightarrow> run_lines calls (proc_out out))"

text \<open>A vector of markers \<open>new\<close> comes from \<open>old\<close> by writing the epoch \<open>e\<close> into some of
  its slots.\<close>

definition kept :: "32 word list \<Rightarrow> 32 word \<Rightarrow> 32 word list \<Rightarrow> bool" where
  "kept old e new = (length new = length old \<and> (\<forall>i < length old. new ! i = old ! i \<or> new ! i = e))"

text \<open>The bin an entry belongs to; the increment of one histogram slot; and the
  entries of a body for the cells of a box, row by row.\<close>

definition key_of :: "CollisionSet \<Rightarrow> Entry \<Rightarrow> nat" where
  "key_of cs e = bin_index cs (cell_x e) (cell_y e)"

definition bump :: "nat \<Rightarrow> nat list \<Rightarrow> nat list" where
  "bump i c = c[i := c ! i + 1]"

text \<open>The histogram slot that \<^verbatim>\<open>Add\<close> increments for an entry: \<^verbatim>\<open>gy * CELLS + gx + 2\<close>, in
  32-bit unsigned arithmetic.\<close>

definition slot_of :: "CollisionSet \<Rightarrow> Entry \<Rightarrow> nat" where
  "slot_of cs e = (bin_index cs (cell_x e) (cell_y e) + 2) mod 2 ^ 32"

definition box_entries :: "BodyPtr \<Rightarrow> nat \<Rightarrow> int \<Rightarrow> int \<Rightarrow> int \<Rightarrow> int \<Rightarrow> Entry list" where
  "box_entries b n minX maxX minY maxY =
     concat (map (\<lambda>y. map (\<lambda>x. \<lparr>body = b, seenIndex = n, cell_x = x, cell_y = y\<rparr>) [minX..maxX])
               [minY..maxY])"

text \<open>Notions for the counting sort of \<^verbatim>\<open>Finish\<close>. The grid is well-formed when \<^verbatim>\<open>WRAP_MASK\<close>
  is \<^verbatim>\<open>CELLS - 1\<close>, as the constructor makes it, and \<^verbatim>\<open>CELLS * CELLS + 2\<close> does not wrap
  around in 32 bits, so that \<^verbatim>\<open>counts\<close> has a slot for every index the source forms.\<close>

definition grid_ok :: "CollisionSet \<Rightarrow> bool" where
  "grid_ok cs = (WRAP_MASK cs + 1 = CELLS cs \<and> CELLS cs * CELLS cs + 2 < 2 ^ 32)"

text \<open>The number of elements whose key is below \<open>k\<close>: where the bin of key \<open>k\<close> starts in a
  list sorted by key.\<close>

definition start_of :: "('a \<Rightarrow> nat) \<Rightarrow> nat \<Rightarrow> 'a list \<Rightarrow> nat" where
  "start_of key k xs = length (filter (\<lambda>e. key e < k) xs)"

text \<open>The radix-sort step on the pair of the table and the cursors, and what holds when
  the entries \<open>P\<close> of the list \<open>A\<close> have been placed: the cursor of every bin has
  advanced by the number of placed entries of the bin, and these lie from the start of
  the bin on, in their order in \<open>P\<close>.\<close>

definition place_list :: "('a \<Rightarrow> nat) \<Rightarrow> 'a \<Rightarrow> 'a list \<times> nat list \<Rightarrow> 'a list \<times> nat list" where
  "place_list key e st =
     ((fst st)[snd st ! (key e + 1) := e], (snd st)[key e + 1 := snd st ! (key e + 1) + 1])"

definition scattered :: "('a \<Rightarrow> nat) \<Rightarrow> nat \<Rightarrow> 'a list \<Rightarrow> 'a list \<Rightarrow> 'a list \<times> nat list \<Rightarrow> bool" where
  "scattered key N A P st =
     (length (fst st) = length A \<and> length (snd st) = N + 2 \<and>
      (\<forall>k < N. snd st ! (k + 1) = start_of key k A + length (filter (\<lambda>e. key e = k) P)) \<and>
      (\<forall>k < N. \<forall>j < length (filter (\<lambda>e. key e = k) P).
          fst st ! (start_of key k A + j) = filter (\<lambda>e. key e = k) P ! j))"

text \<open>What \<^verbatim>\<open>Clear\<close> establishes and \<^verbatim>\<open>Add\<close> maintains: \<^verbatim>\<open>counts\<close> is the histogram of the
  pending entries (shifted by two slots), every pending entry carries the dense index
  of its body, and no body has two entries for one cell.\<close>

definition pending_ok :: "CollisionSet \<Rightarrow> bool" where
  "pending_ok cs =
     (counts cs = fold bump (map (\<lambda>e. key_of cs e + 2) (added cs))
                    (replicate (CELLS cs * CELLS cs + 2) 0) \<and>
      (\<forall>e \<in> set (added cs). seenIndex e < length (all_bodies cs) \<and>
                               body e = all_bodies cs ! seenIndex e) \<and>
      distinct (map (\<lambda>e. (seenIndex e, cell_y e, cell_x e)) (added cs)))"

text \<open>What \<^verbatim>\<open>Finish\<close> establishes: \<^verbatim>\<open>counts[b]\<close> is where bin \<open>b\<close> starts, and the bin holds
  the pending entries of key \<open>b\<close>, in the order in which they were added.\<close>

definition table_ok :: "CollisionSet \<Rightarrow> bool" where
  "table_ok cs =
     (grid_ok cs \<and>
      length (counts cs) = CELLS cs * CELLS cs + 2 \<and>
      length (sorted_entries cs) = length (added cs) \<and>
      (\<forall>b \<le> CELLS cs * CELLS cs. counts cs ! b = start_of (key_of cs) b (added cs)) \<and>
      (\<forall>b < CELLS cs * CELLS cs. bin cs b = filter (\<lambda>e. key_of cs e = b) (added cs)) \<and>
      set (sorted_entries cs) = set (added cs) \<and>
      (\<forall>e \<in> set (added cs). seenIndex e < length (all_bodies cs) \<and>
                               body e = all_bodies cs ! seenIndex e) \<and>
      distinct (map (\<lambda>e. (seenIndex e, cell_y e, cell_x e)) (added cs)) \<and>
      length (seen cs) = length (all_bodies cs))"

text \<open>A collision set \<open>cs\<close> is \<open>cs0\<close> after some queries: \<^verbatim>\<open>Line\<close> and \<^verbatim>\<open>Ring\<close> write to
  \<^verbatim>\<open>seen\<close>, \<^verbatim>\<open>seenEpoch\<close> and \<^verbatim>\<open>result\<close> only, and keep the length of \<^verbatim>\<open>seen\<close>.\<close>

definition later :: "CollisionSet \<Rightarrow> CollisionSet \<Rightarrow> bool" where
  "later cs0 cs =
     (CELL_SIZE cs = CELL_SIZE cs0 \<and> SHIFT cs = SHIFT cs0 \<and> CELL_MASK cs = CELL_MASK cs0 \<and>
      CELLS cs = CELLS cs0 \<and> WRAP_MASK cs = WRAP_MASK cs0 \<and> step cs = step cs0 \<and>
      all_bodies cs = all_bodies cs0 \<and> added cs = added cs0 \<and>
      sorted_entries cs = sorted_entries cs0 \<and> counts cs = counts cs0 \<and>
      length (seen cs) = length (seen cs0))"

subsection \<open>Example configurations\<close>

text \<open>
  A grid of 2 by 2 cells of 256 units, and worlds of two bodies: body 1 at (256, 100)
  with radius 200, whose box covers the cells (0..1, -1..1), and body 2 at (400, 100)
  with radius 10, in cell (1, 0). The governments of the bodies and the answers of
  their masks to a ray are parameters; two governments are enemies when they differ.
  All coordinates and radii of the examples are small integers or halves, on which the
  machine's subtraction and addition of doubles are exact.
\<close>

definition grid2 :: CollisionSet where
  "grid2 = CollisionSet_new 256 2 [] 0"

definition two_bodies :: "(BodyPtr \<Rightarrow> GovPtr option) \<Rightarrow> (BodyPtr \<Rightarrow> real) \<Rightarrow> World" where
  "two_bodies govs answers =
     \<lparr>deref = (\<lambda>b. if b = 1
                then \<lparr>Position = (256, 100), Radius = 200, Facing = 0, GetGovernment = govs b\<rparr>
                else \<lparr>Position = (400, 100), Radius = 10, Facing = 0, GetGovernment = govs b\<rparr>),
      Collide = (\<lambda>b s off v f. answers b),
      WithinRing = (\<lambda>b s off f i out. False),
      IsEnemy = (\<lambda>a b. a \<noteq> b),
      minus_double = (\<lambda>a b. a - b), plus_double = (\<lambda>a b. a + b)\<rparr>"

text \<open>No governments; the mask of body 1 answers 3/4, the mask of body 2 answers 1/2.\<close>

definition world2 :: World where
  "world2 = two_bodies (\<lambda>b. None) (\<lambda>b. if b = 1 then 3 / 4 else 1 / 2)"

definition index2 :: CollisionSet where
  "index2 = build world2 0 [1, 2] grid2"

definition quiet :: Process where
  "quiet = \<lparr>warned = False, errorLog = []\<rparr>"

text \<open>An empty index whose cells are 524288 units wide, and a call on the example index
  whose segment is 500000 units long.\<close>

definition wide_index :: CollisionSet where
  "wide_index = build world2 0 [] (CollisionSet_new 524288 2 [] 0)"

definition fast_shot :: LineCall where
  "fast_shot = \<lparr>call_world = world2, call_set = index2, call_from = (10, 100),
      call_to = (500010, 100), call_closestHit = None, call_pGov = None, call_target = None\<rparr>"

text \<open>The example index after \<open>2 ^ 32 - 1\<close> queries, one of which (the seventh) marked
  body 1, and none of which marked body 2.\<close>

definition wrapped_index :: CollisionSet where
  "wrapped_index = index2\<lparr>seen := [7, 0], seenEpoch := - 1\<rparr>"

text \<open>A world in which every pointer refers to a body at the given position, with the
  given radius.\<close>

definition one_body :: "Point \<Rightarrow> real \<Rightarrow> World" where
  "one_body pos r =
     \<lparr>deref = (\<lambda>b. \<lparr>Position = pos, Radius = r, Facing = 0, GetGovernment = None\<rparr>),
      Collide = (\<lambda>b s off v f. 1), WithinRing = (\<lambda>b s off f i out. False),
      IsEnemy = (\<lambda>a b. False),
      minus_double = (\<lambda>a b. a - b), plus_double = (\<lambda>a b. a + b)\<rparr>"

text \<open>The index of a step in which body 1 was added twice.\<close>

definition twice_index :: CollisionSet where
  "twice_index = build world2 0 [1, 1] grid2"

section \<open>Properties\<close>

subsection \<open>The shape of a call of Line\<close>

lemma Length_Unit:
  assumes "fst a * fst a + snd a * snd a \<noteq> 0"
  shows "Length (Unit a) = 1"
proof -
  let ?s = "fst a * fst a + snd a * snd a"
  have pos: "0 < ?s" using assms
    by (metis add_nonneg_nonneg less_eq_real_def zero_le_square)
  have L: "Length a = sqrt ?s" by (simp add: Length_def)
  have Lpos: "0 < Length a" using pos by (simp add: L)
  have sq: "Length a * Length a = ?s" using pos by (simp add: L)
  have "fst (Unit a) * fst (Unit a) + snd (Unit a) * snd (Unit a)
        = ?s / (Length a * Length a)"
    using assms by (simp add: Unit_def add_divide_distrib)
  also have "\<dots> = ?s / ?s" by (simp only: sq)
  also have "\<dots> = 1" using assms by (rule divide_self)
  finally show ?thesis by (simp add: Length_def)
qed

lemma Length_newEnd:
  assumes "Length (Point_minus to from) > real_of_int MAX_VELOCITY"
  shows "Length (Point_minus (newEnd from to) from) = real_of_int USED_MAX_VELOCITY"
proof -
  let ?v = "Point_minus to from"
  have nz: "fst ?v * fst ?v + snd ?v * snd ?v \<noteq> 0"
  proof
    assume "fst ?v * fst ?v + snd ?v * snd ?v = 0"
    then have "Length ?v = 0" by (simp add: Length_def)
    with assms show False by (simp add: MAX_VELOCITY_def)
  qed
  have eq: "Point_minus (newEnd from to) from = Point_times (Unit ?v) (real_of_int USED_MAX_VELOCITY)"
    by (simp add: newEnd_def Point_minus_def Point_plus_def Point_times_def)
  have "Length (Point_times u c) = \<bar>c\<bar> * Length u" for u c
  proof -
    have "fst u * c * (fst u * c) + snd u * c * (snd u * c) = (c * c) * (fst u * fst u + snd u * snd u)"
      by (simp add: algebra_simps)
    then show ?thesis
      by (simp add: Length_def Point_times_def real_sqrt_mult)
  qed
  then show ?thesis
    using Length_Unit[OF nz] by (simp add: eq USED_MAX_VELOCITY_def MAX_VELOCITY_def)
qed

lemma Line_capped:
  assumes "\<not> same_cell cs from to" "Length (Point_minus to from) > real_of_int MAX_VELOCITY"
  shows "Line w from to closestHit pGov target cs p =
     (if same_cell cs from (newEnd from to)
      then Some (Line_single w from (newEnd from to) closestHit pGov target cs (warn p))
      else Line_stepped w from (newEnd from to) closestHit pGov target cs (warn p))"
proof -
  have "\<not> Length (Point_minus (newEnd from to) from) > real_of_int MAX_VELOCITY"
    using Length_newEnd[OF assms(2)] by (simp add: USED_MAX_VELOCITY_def)
  then have "Line w from (newEnd from to) closestHit pGov target cs (warn p) =
     (if same_cell cs from (newEnd from to)
      then Some (Line_single w from (newEnd from to) closestHit pGov target cs (warn p))
      else Line_stepped w from (newEnd from to) closestHit pGov target cs (warn p))"
    by (subst Line.simps) simp
  then show ?thesis using assms by (subst Line.simps) simp
qed

lemma Line_cases:
  "Line w from to closestHit pGov target cs p =
     (if same_cell cs from (used_end cs from to)
      then Some (Line_single w from (used_end cs from to) closestHit pGov target cs
                   (if clamps cs from to then warn p else p))
      else Line_stepped w from (used_end cs from to) closestHit pGov target cs
             (if clamps cs from to then warn p else p))"
proof (cases "clamps cs from to")
  case True
  then show ?thesis using Line_capped[of cs "from" "to"] by (simp add: clamps_def used_end_def)
next
  case False
  then show ?thesis by (subst Line.simps) (auto simp: clamps_def used_end_def)
qed


subsection \<open>The epoch counter\<close>

lemma fold_invariant:
  assumes "I s" and "\<And>x s. x \<in> set xs \<Longrightarrow> I s \<Longrightarrow> I (f x s)"
  shows "I (fold f xs s)"
  using assms by (induction xs arbitrary: s) auto

lemma Length_gt_iff: "0 \<le> c \<Longrightarrow> (c < Length a) = (c * c < fst a * fst a + snd a * snd a)"
proof -
  assume c: "0 \<le> c"
  have "c = sqrt (c * c)" using c by simp
  then have "(c < Length a) = (sqrt (c * c) < sqrt (fst a * fst a + snd a * snd a))"
    by (simp add: Length_def)
  then show ?thesis by (simp only: real_sqrt_less_iff)
qed

lemma visit_ring_seenEpoch: "seenEpoch (fst (visit_ring w c i o' x y e st)) = seenEpoch (fst st)"
  by (simp add: visit_ring_def Let_def)

lemma Ring_seenEpoch: "seenEpoch (fst (Ring w c i o' cs)) = seenEpoch cs + 1"
  unfolding Ring_def Let_def
  by (rule fold_invariant, simp, rule fold_invariant, simp, rule fold_invariant, simp)
     (simp add: visit_ring_seenEpoch)

lemma probe_marks: "marks (probe w cs q e sc) = marks sc"
  by (simp add: probe_def Let_def)

lemma visit_single_marks: "marks (visit_single w cs q cx cy e sc) = marks sc"
  by (simp add: visit_single_def probe_marks)

lemma fold_visit_single_marks: "marks (fold (visit_single w cs q cx cy) es sc) = marks sc"
  by (induction es arbitrary: sc) (simp_all add: visit_single_marks)

lemma Line_single_cs: "cs_out (Line_single w from to closestHit pGov target cs p) = cs"
  by (simp add: Line_single_def Let_def finish_line_def fold_visit_single_marks start_scan_def)

lemma Line_stepped_seenEpoch:
  "Line_stepped w from to closestHit pGov target cs p = Some out \<Longrightarrow>
   seenEpoch (cs_out out) = seenEpoch cs + 1"
  by (auto simp: Line_stepped_def Let_def finish_line_def)


subsection \<open>Evaluating the model on concrete input\<close>

lemma replicate_num: "replicate (numeral k) x = x # replicate (pred_numeral k) x"
  by (simp add: numeral_eq_Suc)

lemma update_num: "(x # xs)[numeral k := y] = x # xs[pred_numeral k := y]"
  by (simp add: numeral_eq_Suc)

lemmas build_defs = CollisionSet_new_def Clear_def Add_def Finish_def build_def add_cell_def
  bin_index_def place_def default_Entry_def to_int_def Let_def replicate_num update_num
  upto.simps

lemmas line_defs = Line_cases clamps_def used_end_def same_cell_def Length_gt_iff
  MAX_VELOCITY_def USED_MAX_VELOCITY_def Point_minus_def Line_single_def Line_stepped_def
  Line_loop.simps move_def scan_cell_def slope_of_def first_walk_def start_scan_def finish_line_def
  visit_single_def visit_stepped_def probe_def skips_def TryNearer_def bin_def
  bin_index_def to_int_def Let_def

lemma index2_value:
  "index2 =
     \<lparr>CELL_SIZE = 256, SHIFT = 8, CELL_MASK = 255, CELLS = 2, WRAP_MASK = 1, step = 0,
      all_bodies = [1, 2],
      added =
        [\<lparr>body = 1, seenIndex = 0, cell_x = 0, cell_y = - 1\<rparr>,
         \<lparr>body = 1, seenIndex = 0, cell_x = 1, cell_y = - 1\<rparr>,
         \<lparr>body = 1, seenIndex = 0, cell_x = 0, cell_y = 0\<rparr>,
         \<lparr>body = 1, seenIndex = 0, cell_x = 1, cell_y = 0\<rparr>,
         \<lparr>body = 1, seenIndex = 0, cell_x = 0, cell_y = 1\<rparr>,
         \<lparr>body = 1, seenIndex = 0, cell_x = 1, cell_y = 1\<rparr>,
         \<lparr>body = 2, seenIndex = 1, cell_x = 1, cell_y = 0\<rparr>],
      sorted_entries =
        [\<lparr>body = 1, seenIndex = 0, cell_x = 0, cell_y = 0\<rparr>,
         \<lparr>body = 1, seenIndex = 0, cell_x = 1, cell_y = 0\<rparr>,
         \<lparr>body = 2, seenIndex = 1, cell_x = 1, cell_y = 0\<rparr>,
         \<lparr>body = 1, seenIndex = 0, cell_x = 0, cell_y = - 1\<rparr>,
         \<lparr>body = 1, seenIndex = 0, cell_x = 0, cell_y = 1\<rparr>,
         \<lparr>body = 1, seenIndex = 0, cell_x = 1, cell_y = - 1\<rparr>,
         \<lparr>body = 1, seenIndex = 0, cell_x = 1, cell_y = 1\<rparr>],
      counts = [0, 1, 3, 5, 7, 7],
      result = [], seen = [0, 0], seenEpoch = 0\<rparr>"
  by (simp add: index2_def grid2_def world2_def two_bodies_def build_defs)

subsection \<open>C7: the epoch counter per query\<close>

text \<open>
  Claim C7 says that every call of \<^verbatim>\<open>Line\<close> and of \<^verbatim>\<open>Ring\<close> (hence \<^verbatim>\<open>Circle\<close>)
  increments \<^verbatim>\<open>seenEpoch\<close> exactly once, the single-cell path of \<^verbatim>\<open>Line\<close> included.
  The single-cell path returns before the increment: in the example index, the
  segment from (10, 100) to (200, 100) stays in cell (0, 0), the call returns, and the
  counter is 0 before and after.
\<close>

theorem single_cell_keeps_seenEpoch:
  "map_option (seenEpoch \<circ> cs_out)
     (Line world2 (10, 100) (200, 100) (Some 1) None None index2 quiet) = Some 0
   \<and> seenEpoch index2 = 0"
  by (simp add: index2_value world2_def two_bodies_def quiet_def line_defs)

text \<open>
  C7 as amended: every call of \<^verbatim>\<open>Ring\<close> and of \<^verbatim>\<open>Circle\<close> increments \<^verbatim>\<open>seenEpoch\<close>
  exactly once (modulo \<open>2 ^ 32\<close>); a call of \<^verbatim>\<open>Line\<close> that returns has incremented
  it exactly once when the start cell and the end cell of the segment it works with
  (the given one, or the one cut to \<^verbatim>\<open>USED_MAX_VELOCITY\<close>) differ, and has left it
  unchanged when they coincide.
\<close>

theorem seenEpoch_per_query:
  "seenEpoch (fst (Ring w center inner outer cs)) = seenEpoch cs + 1 \<and>
   seenEpoch (fst (Circle w center radius cs)) = seenEpoch cs + 1 \<and>
   (Line w a b closestHit pGov target cs p = Some out \<longrightarrow>
      seenEpoch (cs_out out) =
        (if same_cell cs a (used_end cs a b) then seenEpoch cs else seenEpoch cs + 1))"
  by (auto simp: Ring_seenEpoch Circle_def Line_cases Line_single_cs
           dest: Line_stepped_seenEpoch)

theorem seenEpoch_per_query_witness:
  "\<exists>out. Line world2 (10, 100) (500, 100) (Some 1) None None index2 quiet = Some out
     \<and> seenEpoch (cs_out out) = 1
     \<and> seenEpoch (fst (Ring world2 (10, 100) 0 5 index2)) = 1"
proof -
  have "Line world2 (10, 100) (500, 100) (Some 1) None None index2 quiet \<noteq> None"
    by (simp add: index2_value world2_def two_bodies_def quiet_def line_defs)
  then obtain out where
    out: "Line world2 (10, 100) (500, 100) (Some 1) None None index2 quiet = Some out"
    by blast
  have cells: "\<not> same_cell index2 (10, 100) (used_end index2 (10, 100) (500, 100))"
    by (simp add: index2_value line_defs)
  have zero: "seenEpoch index2 = 0"
    by (simp add: index2_value)
  show ?thesis
    using seenEpoch_per_query [of world2 "(10, 100)" 0 5 index2 _ "(10, 100)" "(500, 100)"
        "Some 1" None None quiet out] out cells zero
    by simp
qed

subsection \<open>The scans of a call of Line\<close>

lemma walked_Nil: "walked w cs q st (scan_cell w cs q (gx st, gy st) (scan st)) []"
  by (simp add: walked_def)

lemma walked_Cons:
  assumes "walked w cs q st' sc cells" "scan st' = scan_cell w cs q (gx st, gy st) (scan st)"
    and "closest_body (closer_result (scan st')) = None"
  shows "walked w cs q st sc ((gx st', gy st') # cells)"
  unfolding walked_def
proof (intro conjI allI impI)
  show "sc = fold (scan_cell w cs q) ((gx st, gy st) # (gx st', gy st') # cells) (scan st)"
    using assms(1,2) by (simp add: walked_def)
next
  fix n assume "n < length ((gx st', gy st') # cells)"
  then show "closest_body (closer_result
     (fold (scan_cell w cs q) (take (Suc n) ((gx st, gy st) # (gx st', gy st') # cells)) (scan st))) = None"
    using assms by (cases n) (auto simp: walked_def)
qed

lemma move_Go_scan: "move k st sc = Go st' \<Longrightarrow> scan st' = sc \<and> closest_body (closer_result sc) = None"
  by (auto simp: move_def Let_def split: if_splits)

lemma Line_loop_cells:
  assumes "Line_loop w cs q k st = Some sc"
  shows "\<exists>cells. walked w cs q st sc cells"
proof (rule Line_loop.raw_induct[where P = "\<lambda>w cs q k st sc. \<exists>cells. walked w cs q st sc cells", OF _ assms], goal_cases)
  case (1 loop w cs q k st sc)
  let ?sc0 = "scan_cell w cs q (gx st, gy st) (scan st)"
  show ?case
  proof (cases "move k st ?sc0")
    case Stop
    then have "sc = ?sc0" using 1(2) by (simp add: Let_def)
    then show ?thesis using walked_Nil[of w cs q st] by auto
  next
    case Trap
    then show ?thesis using 1(2) by (simp add: Let_def)
  next
    case (Go st')
    then have rec: "loop w cs q k st' = Some sc" using 1(2) by (simp add: Let_def)
    from 1(1)[OF rec] obtain cells where "walked w cs q st' sc cells" by blast
    then have "walked w cs q st sc ((gx st', gy st') # cells)"
      using move_Go_scan[OF Go] by (intro walked_Cons) simp_all
    then show ?thesis by blast
  qed
qed

lemma Line_shape:
  assumes "Line w a b closestHit pGov target cs p = Some out"
  shows "(same_cell cs a (used_end cs a b) \<and>
          out = finish_line closestHit cs (proc_after cs a b p)
                  (fold (visit_single w cs (segment_of cs a b pGov target)
                           (drop_bit (SHIFT cs) (to_int (fst a))) (drop_bit (SHIFT cs) (to_int (snd a))))
                     (bin cs (bin_index cs (drop_bit (SHIFT cs) (to_int (fst a)))
                                (drop_bit (SHIFT cs) (to_int (snd a)))))
                     (start_scan cs closestHit)))
       \<or> (\<not> same_cell cs a (used_end cs a b) \<and>
          (\<exists>sc cells.
             out = finish_line closestHit (cs\<lparr>seenEpoch := seenEpoch cs + 1\<rparr>) (proc_after cs a b p) sc \<and>
             walked w (cs\<lparr>seenEpoch := seenEpoch cs + 1\<rparr>) (segment_of cs a b pGov target)
               (first_walk cs a (used_end cs a b) (start_scan cs closestHit)) sc cells))"
proof (cases "same_cell cs a (used_end cs a b)")
  case True
  then show ?thesis using assms
    by (auto simp: Line_cases Line_single_def Let_def segment_of_def proc_after_def)
next
  case False
  then have "Line_stepped w a (used_end cs a b) closestHit pGov target cs (proc_after cs a b p) = Some out"
    using assms by (simp add: Line_cases proc_after_def)
  then obtain sc where
    L: "Line_loop w (cs\<lparr>seenEpoch := seenEpoch cs + 1\<rparr>) (segment_of cs a b pGov target)
          (slope_of cs a (used_end cs a b)) (first_walk cs a (used_end cs a b) (start_scan cs closestHit)) = Some sc"
    and o: "out = finish_line closestHit (cs\<lparr>seenEpoch := seenEpoch cs + 1\<rparr>) (proc_after cs a b p) sc"
    by (auto simp: Line_stepped_def Let_def segment_of_def)
  from Line_loop_cells[OF L] o False show ?thesis by blast
qed

lemma bin_subset: "set (bin cs i) \<subseteq> set (sorted_entries cs)"
  unfolding bin_def by (meson set_take_subset set_drop_subset subset_trans)

lemma scan_cell_invariant:
  assumes "I sc"
    and "\<And>cx cy e s. e \<in> set (sorted_entries cs) \<Longrightarrow> I s \<Longrightarrow> I (visit_stepped w cs q cx cy e s)"
  shows "I (scan_cell w cs q c sc)"
  unfolding scan_cell_def
proof (rule fold_invariant[where I = I])
  show "I sc" by fact
next
  fix x s assume "x \<in> set (bin cs (bin_index cs (fst c) (snd c)))" "I s"
  then show "I (visit_stepped w cs q (fst c) (snd c) x s)"
    using assms(2) bin_subset by blast
qed

lemma walked_invariant:
  assumes "walked w cs q st sc cells" "I (scan st)"
    and "\<And>cx cy e s. e \<in> set (sorted_entries cs) \<Longrightarrow> I s \<Longrightarrow> I (visit_stepped w cs q cx cy e s)"
  shows "I sc"
proof -
  have "I (fold (scan_cell w cs q) ((gx st, gy st) # cells) (scan st))"
  proof (rule fold_invariant[where I = I])
    show "I (scan st)" by fact
  next
    fix x s assume "I s"
    then show "I (scan_cell w cs q x s)"
      by (rule scan_cell_invariant) (rule assms(3))
  qed
  then show ?thesis using assms(1) by (simp add: walked_def)
qed

lemma Line_invariant:
  assumes L: "Line w a b closestHit pGov target cs p = Some out"
    and init: "I (start_scan cs closestHit)"
    and single: "\<And>cx cy e s. e \<in> set (sorted_entries cs) \<Longrightarrow> I s \<Longrightarrow>
                   I (visit_single w cs (segment_of cs a b pGov target) cx cy e s)"
    and stepped: "\<And>cx cy e s. e \<in> set (sorted_entries cs) \<Longrightarrow> I s \<Longrightarrow>
                   I (visit_stepped w (cs\<lparr>seenEpoch := seenEpoch cs + 1\<rparr>)
                        (segment_of cs a b pGov target) cx cy e s)"
  shows "\<exists>sc cs'. out = finish_line closestHit cs' (proc_after cs a b p) sc \<and> I sc"
  using Line_shape[OF L]
proof (elim disjE conjE exE)
  assume o: "out = finish_line closestHit cs (proc_after cs a b p)
                  (fold (visit_single w cs (segment_of cs a b pGov target)
                           (drop_bit (SHIFT cs) (to_int (fst a))) (drop_bit (SHIFT cs) (to_int (snd a))))
                     (bin cs (bin_index cs (drop_bit (SHIFT cs) (to_int (fst a)))
                                (drop_bit (SHIFT cs) (to_int (snd a)))))
                     (start_scan cs closestHit))"
  have "I (fold (visit_single w cs (segment_of cs a b pGov target)
                           (drop_bit (SHIFT cs) (to_int (fst a))) (drop_bit (SHIFT cs) (to_int (snd a))))
                     (bin cs (bin_index cs (drop_bit (SHIFT cs) (to_int (fst a)))
                                (drop_bit (SHIFT cs) (to_int (snd a)))))
                     (start_scan cs closestHit))"
  proof (rule fold_invariant[where I = I])
    show "I (start_scan cs closestHit)" by fact
  next
    fix x s
    assume "x \<in> set (bin cs (bin_index cs (drop_bit (SHIFT cs) (to_int (fst a)))
                                (drop_bit (SHIFT cs) (to_int (snd a)))))" "I s"
    then show "I (visit_single w cs (segment_of cs a b pGov target)
                 (drop_bit (SHIFT cs) (to_int (fst a))) (drop_bit (SHIFT cs) (to_int (snd a))) x s)"
      using single bin_subset by blast
  qed
  with o show ?thesis by blast
next
  fix sc cells
  assume o: "out = finish_line closestHit (cs\<lparr>seenEpoch := seenEpoch cs + 1\<rparr>) (proc_after cs a b p) sc"
    and wk: "walked w (cs\<lparr>seenEpoch := seenEpoch cs + 1\<rparr>) (segment_of cs a b pGov target)
               (first_walk cs a (used_end cs a b) (start_scan cs closestHit)) sc cells"
  have "I sc"
  proof (rule walked_invariant[where I = I, OF wk])
    show "I (scan (first_walk cs a (used_end cs a b) (start_scan cs closestHit)))"
      using init by (simp add: first_walk_def Let_def)
  next
    fix cx cy e s
    assume "e \<in> set (sorted_entries (cs\<lparr>seenEpoch := seenEpoch cs + 1\<rparr>))" "I s"
    then show "I (visit_stepped w (cs\<lparr>seenEpoch := seenEpoch cs + 1\<rparr>)
                        (segment_of cs a b pGov target) cx cy e s)"
      using stepped by simp
  qed
  with o show ?thesis by blast
qed

lemma nearest_snoc: "nearest h0 (xs @ [x]) = TryNearer (snd x) (body (fst x)) (nearest h0 xs)"
  by (simp add: nearest_def)

lemma nearest_props:
  "(closest_body (nearest h0 xs) = None \<longrightarrow> closest_dist (nearest h0 xs) = h0 \<and> (\<forall>x \<in> set xs. h0 \<le> snd x))
   \<and> (\<forall>bd. closest_body (nearest h0 xs) = Some bd \<longrightarrow>
         (\<exists>x \<in> set xs. body (fst x) = bd \<and> snd x = closest_dist (nearest h0 xs)))
   \<and> (closest_body (nearest h0 xs) \<noteq> None \<longrightarrow> closest_dist (nearest h0 xs) < h0)
   \<and> (\<forall>x \<in> set xs. closest_dist (nearest h0 xs) \<le> snd x)
   \<and> closest_dist (nearest h0 xs) \<le> h0"
proof (induction xs rule: rev_induct)
  case Nil
  then show ?case by (simp add: nearest_def)
next
  case (snoc x xs)
  show ?case
  proof (cases "snd x \<ge> closest_dist (nearest h0 xs)")
    case True
    then have "nearest h0 (xs @ [x]) = nearest h0 xs"
      by (simp add: nearest_snoc TryNearer_def)
    with snoc True show ?thesis by auto
  next
    case False
    then have eq: "nearest h0 (xs @ [x]) = \<lparr>closest_dist = snd x, closest_body = Some (body (fst x))\<rparr>"
      by (simp add: nearest_snoc TryNearer_def)
    from False snoc have "snd x < h0" "\<forall>y\<in>set xs. snd x \<le> snd y"
      by force+
    then show ?thesis by (auto simp: eq)
  qed
qed

lemma scan_ok_start:
  "scan_ok w cs q (case closestHit of Some h \<Rightarrow> h | None \<Rightarrow> 1) (start_scan cs' closestHit)"
  by (simp add: scan_ok_def start_scan_def nearest_def)

lemma scan_ok_marks: "scan_ok w cs q h0 (s\<lparr>marks := m\<rparr>) = scan_ok w cs q h0 s"
  by (simp add: scan_ok_def)

lemma scan_ok_probe:
  assumes "scan_ok w cs q h0 s" "e \<in> set (sorted_entries cs)" "step cs' = step cs"
  shows "scan_ok w cs q h0 (probe w cs' q e s)"
  using assms by (auto simp: scan_ok_def probe_def Let_def nearest_snoc ray_def)

lemma scan_ok_single:
  assumes "scan_ok w cs q h0 s" "e \<in> set (sorted_entries cs)"
  shows "scan_ok w cs q h0 (visit_single w cs q cx cy e s)"
  using assms by (simp add: visit_single_def scan_ok_probe)

lemma scan_ok_stepped:
  assumes "scan_ok w cs q h0 s" "e \<in> set (sorted_entries cs)" "step cs' = step cs"
  shows "scan_ok w cs q h0 (visit_stepped w cs' q cx cy e s)"
  using assms by (simp add: visit_stepped_def scan_ok_probe scan_ok_marks)

lemma Line_scan_ok:
  assumes "Line w a b closestHit pGov target cs p = Some out"
  shows "\<exists>sc cs'. out = finish_line closestHit cs' (proc_after cs a b p) sc \<and>
           scan_ok w cs (segment_of cs a b pGov target) (case closestHit of Some h \<Rightarrow> h | None \<Rightarrow> 1) sc"
  by (rule Line_invariant[OF assms]) (simp_all add: scan_ok_start scan_ok_single scan_ok_stepped)

lemma skips_iff:
  "(\<not> skips w q bd) =
     (Some bd = seg_target q \<or> GetGovernment (deref w bd) = None \<or> seg_pGov q = None \<or>
      (\<exists>ig pg. GetGovernment (deref w bd) = Some ig \<and> seg_pGov q = Some pg \<and> IsEnemy w ig pg))"
  by (auto simp: skips_def split: option.splits)

subsection \<open>C6: the friend-or-foe rule\<close>

text \<open>
  Claim C6: in every \<^verbatim>\<open>Line\<close> query, a candidate body (an entry that reached the
  government check) is subjected to the mask ray test if and only if it is the
  designated target, or its government is null, or the projectile's government is
  null, or the two governments are enemies. The entries whose mask was asked are, in
  order, exactly the considered entries that satisfy this condition.
\<close>

theorem Line_government_filter:
  assumes "Line w a b closestHit pGov target cs p = Some out"
  shows "map fst (line_tested out) =
         filter (\<lambda>e. Some (body e) = target \<or> GetGovernment (deref w (body e)) = None \<or> pGov = None \<or>
                   (\<exists>ig pg. GetGovernment (deref w (body e)) = Some ig \<and> pGov = Some pg \<and> IsEnemy w ig pg))
           (line_considered out)"
proof -
  from Line_scan_ok[OF assms] obtain sc cs' where
    "out = finish_line closestHit cs' (proc_after cs a b p) sc"
    "map fst (tested sc) =
       filter (\<lambda>e. \<not> skips w (segment_of cs a b pGov target) (body e)) (considered sc)"
    by (auto simp: scan_ok_def)
  then show ?thesis
    by (simp add: finish_line_def skips_iff segment_of_def)
qed

text \<open>
  In the example, bodies 1 and 2 have governments 7 and 8 and the projectile has
  government 7: in cell (1, 0) both bodies are considered, and only body 2 (an enemy)
  is tested.
\<close>

theorem Line_government_filter_witness:
  "\<exists>out. Line (two_bodies (\<lambda>b. if b = 1 then Some 7 else Some 8) (\<lambda>b. 1 / 2))
            (300, 100) (500, 100) None (Some 7) None index2 quiet = Some out
     \<and> map fst (line_tested out) =
         filter (\<lambda>e. Some (body e) = None
                   \<or> GetGovernment (deref (two_bodies (\<lambda>b. if b = 1 then Some 7 else Some 8) (\<lambda>b. 1 / 2)) (body e)) = None
                   \<or> Some (7::nat) = None
                   \<or> (\<exists>ig pg. GetGovernment (deref (two_bodies (\<lambda>b. if b = 1 then Some 7 else Some 8) (\<lambda>b. 1 / 2)) (body e)) = Some ig
                        \<and> Some 7 = Some pg
                        \<and> IsEnemy (two_bodies (\<lambda>b. if b = 1 then Some 7 else Some 8) (\<lambda>b. 1 / 2)) ig pg))
           (line_considered out)
     \<and> map body (line_considered out) = [1, 2]
     \<and> map (body \<circ> fst) (line_tested out) = [2]"
proof -
  let ?w = "two_bodies (\<lambda>b. if b = 1 then Some 7 else Some 8) (\<lambda>b. 1 / 2)"
  let ?L = "Line ?w (300, 100) (500, 100) None (Some 7) None index2 quiet"
  have ev: "map_option (\<lambda>out. (map body (line_considered out), map (body \<circ> fst) (line_tested out))) ?L
            = Some ([1, 2], [2])"
    by (simp add: index2_value two_bodies_def quiet_def line_defs)
  then obtain out where out: "?L = Some out" by auto
  from Line_government_filter[OF out] ev out show ?thesis by simp
qed

subsection \<open>C2: the value behind closestHit\<close>

text \<open>
  Claim C2 says that a call of \<^verbatim>\<open>Line\<close> with a non-null \<^verbatim>\<open>closestHit\<close> of incoming value
  \<open>h0\<close> leaves \<open>min h0 h1\<close> behind the pointer when it returns a body of collision
  fraction \<open>h1\<close>. The value is only written back when it is below 1: with \<open>h0 = 5\<close>
  and a mask that answers 1 (a miss), the call returns body 1, whose fraction is 1,
  and the value behind the pointer is still 5, not \<open>min 5 1\<close>.
\<close>

theorem closestHit_above_one_kept:
  "map_option hit
     (Line (two_bodies (\<lambda>b. None) (\<lambda>b. 1)) (10, 100) (200, 100) (Some 5) None None index2 quiet)
     = Some (Some 1)
   \<and> map_option closestHit_out
     (Line (two_bodies (\<lambda>b. None) (\<lambda>b. 1)) (10, 100) (200, 100) (Some 5) None None index2 quiet)
     = Some (Some 5)
   \<and> ray (two_bodies (\<lambda>b. None) (\<lambda>b. 1)) index2
         (segment_of index2 (10, 100) (200, 100) None None) 1 = 1
   \<and> min (5::real) 1 \<noteq> 5"
  by (simp add: index2_value two_bodies_def quiet_def line_defs ray_def segment_of_def)

text \<open>
  C2 as amended: for a call of \<^verbatim>\<open>Line\<close> with a non-null \<^verbatim>\<open>closestHit\<close> of incoming value
  \<open>h0\<close> that returns: if null is returned the value is unchanged; if a body is
  returned, its collision fraction \<open>h1\<close> (the answer of its mask to the ray of the
  segment the call works with) is strictly below \<open>h0\<close>, and the value behind the
  pointer is \<open>min h0 h1\<close> when \<open>h1 < 1\<close>, which is always the case when \<open>h0 \<le> 1\<close>, and
  is unchanged when \<open>h1 \<ge> 1\<close>.
\<close>

theorem Line_closestHit:
  assumes "Line w a b (Some h0) pGov target cs p = Some out"
  shows "(hit out = None \<longrightarrow> closestHit_out out = Some h0) \<and>
         (\<forall>bd. hit out = Some bd \<longrightarrow>
            (\<exists>h1. h1 = ray w cs (segment_of cs a b pGov target) bd \<and> h1 < h0 \<and>
                  (bd, h1) \<in> set (map (\<lambda>x. (body (fst x), snd x)) (line_tested out)) \<and>
                  closestHit_out out = Some (if h1 < 1 then min h0 h1 else h0) \<and>
                  (h0 \<le> 1 \<longrightarrow> closestHit_out out = Some (min h0 h1))))"
proof -
  from Line_scan_ok[OF assms] obtain sc cs' where
    o: "out = finish_line (Some h0) cs' (proc_after cs a b p) sc"
    and ok: "scan_ok w cs (segment_of cs a b pGov target) h0 sc"
    by auto
  let ?c = "nearest h0 (tested sc)"
  have c: "closer_result sc = ?c" using ok by (simp add: scan_ok_def)
  note np = nearest_props[of h0 "tested sc"]
  have 1: "hit out = None \<longrightarrow> closestHit_out out = Some h0"
    using np by (auto simp: o finish_line_def c)
  have 2: "\<exists>h1. h1 = ray w cs (segment_of cs a b pGov target) bd \<and> h1 < h0 \<and>
                  (bd, h1) \<in> set (map (\<lambda>x. (body (fst x), snd x)) (line_tested out)) \<and>
                  closestHit_out out = Some (if h1 < 1 then min h0 h1 else h0) \<and>
                  (h0 \<le> 1 \<longrightarrow> closestHit_out out = Some (min h0 h1))"
    if "hit out = Some bd" for bd
  proof -
    from that have b: "closest_body ?c = Some bd" by (simp add: o finish_line_def c)
    with np obtain x where x: "x \<in> set (tested sc)" "body (fst x) = bd" "snd x = closest_dist ?c"
      by blast
    from b np have lt: "closest_dist ?c < h0" by auto
    from x ok have r: "snd x = ray w cs (segment_of cs a b pGov target) bd"
      by (auto simp: scan_ok_def)
    have "(bd, snd x) \<in> set (map (\<lambda>x. (body (fst x), snd x)) (line_tested out))"
      using x by (force simp: o finish_line_def)
    then show ?thesis using x lt r by (auto simp: o finish_line_def c)
  qed
  from 1 2 show ?thesis by blast
qed

text \<open>In the example world body 1 answers 3/4: from \<open>h0 = 1\<close> the call returns body 1
  and leaves 3/4 behind the pointer.\<close>

theorem Line_closestHit_witness:
  "\<exists>out. Line world2 (10, 100) (200, 100) (Some 1) None None index2 quiet = Some out
     \<and> hit out = Some 1
     \<and> ray world2 index2 (segment_of index2 (10, 100) (200, 100) None None) 1 = 3 / 4
     \<and> closestHit_out out = Some (min 1 (3 / 4))"
proof -
  let ?L = "Line world2 (10, 100) (200, 100) (Some 1) None None index2 quiet"
  have ev: "map_option hit ?L = Some (Some 1)"
    by (simp add: index2_value world2_def two_bodies_def quiet_def line_defs)
  then obtain out where out: "?L = Some out" and h: "hit out = Some 1" by auto
  have r: "ray world2 index2 (segment_of index2 (10, 100) (200, 100) None None) 1 = 3 / 4"
    by (simp add: ray_def world2_def two_bodies_def)
  from Line_closestHit[OF out] h r out show ?thesis by auto
qed

subsection \<open>C9: the velocity warning\<close>

lemma Line_proc_out:
  assumes "Line w a b closestHit pGov target cs p = Some out"
  shows "proc_out out = proc_after cs a b p"
  using Line_shape[OF assms] by (auto simp: finish_line_def)

lemma run_lines_log:
  assumes "run_lines calls p = Some p'"
  shows "warned p' = (warned p \<or> (\<exists>c \<in> set calls. clamps (call_set c) (call_from c) (call_to c)))
       \<and> errorLog p' = errorLog p @
            (if \<not> warned p \<and> (\<exists>c \<in> set calls. clamps (call_set c) (call_from c) (call_to c))
             then [warning] else [])"
  using assms
proof (induction calls arbitrary: p)
  case Nil
  then show ?case by simp
next
  case (Cons c calls)
  from Cons.prems obtain out where
    out: "Line (call_world c) (call_from c) (call_to c) (call_closestHit c) (call_pGov c)
             (call_target c) (call_set c) p = Some out"
    and rest: "run_lines calls (proc_out out) = Some p'"
    by (auto split: option.splits)
  have po: "proc_out out = proc_after (call_set c) (call_from c) (call_to c) p"
    by (rule Line_proc_out[OF out])
  show ?case
    using Cons.IH[OF rest] by (auto simp: po proc_after_def warn_def)
qed

lemma run_lines_append:
  "run_lines (xs @ ys) p = (case run_lines xs p of None \<Rightarrow> None | Some pm \<Rightarrow> run_lines ys pm)"
  by (induction xs arbitrary: p) (auto split: option.splits)

lemma Process_eq: "warned p = warned p' \<Longrightarrow> errorLog p = errorLog p' \<Longrightarrow> (p :: Process) = p'"
  by simp

lemma Unit_axis: "0 < x \<Longrightarrow> Unit (x, 0) = (1, 0)"
  by (simp add: Unit_def Length_def)

lemma fast_shot_clamps: "clamps (call_set fast_shot) (call_from fast_shot) (call_to fast_shot)"
  by (simp add: fast_shot_def index2_value line_defs)

lemma fast_shot_run: "run_lines [fast_shot, fast_shot] quiet = Some \<lparr>warned = True, errorLog = [warning]\<rparr>"
  by (simp add: fast_shot_def index2_value world2_def two_bodies_def quiet_def line_defs
       newEnd_def Unit_axis Point_plus_def Point_times_def warn_def warning_def)


text \<open>
  Claim C9 says that the first call of \<^verbatim>\<open>Line\<close> whose segment is longer than
  \<^verbatim>\<open>MAX_VELOCITY\<close> logs the warning. The length is only looked at after the single-cell
  path: on a grid of cells 524288 units wide, the segment from (0, 0) to (460000, 0)
  is longer than \<^verbatim>\<open>MAX_VELOCITY\<close> and stays in one cell; the call returns and has
  neither logged nor set the latch.
\<close>

theorem overlong_in_one_cell_is_silent:
  "real_of_int MAX_VELOCITY < Length (Point_minus (460000, 0) (0, 0))
   \<and> run_lines [\<lparr>call_world = world2, call_set = wide_index, call_from = (0, 0),
                  call_to = (460000, 0), call_closestHit = None, call_pGov = None,
                  call_target = None\<rparr>] quiet = Some quiet"
  by (simp add: wide_index_def world2_def two_bodies_def quiet_def build_defs line_defs)


text \<open>
  C9 as amended: across any sequence of calls of \<^verbatim>\<open>Line\<close> in one process that return,
  starting with the latch unset and an empty log, the warning is logged at most once:
  the log ends as the single warning when some call clamps (its start and end cells
  differ and its segment is longer than \<^verbatim>\<open>MAX_VELOCITY\<close>) and empty otherwise; up to the
  first clamping call nothing is logged, that call logs the warning and sets the
  latch, and the calls after it leave latch and log as they are.
\<close>

theorem warning_logged_once:
  assumes "run_lines calls quiet = Some p'"
  shows "errorLog p' =
           (if \<exists>c \<in> set calls. clamps (call_set c) (call_from c) (call_to c) then [warning] else [])
         \<and> (\<forall>pre c post.
               calls = pre @ c # post
               \<and> (\<forall>d \<in> set pre. \<not> clamps (call_set d) (call_from d) (call_to d))
               \<and> clamps (call_set c) (call_from c) (call_to c) \<longrightarrow>
               run_lines pre quiet = Some quiet
               \<and> (\<exists>pm. run_lines (pre @ [c]) quiet = Some pm
                      \<and> pm = \<lparr>warned = True, errorLog = [warning]\<rparr>
                      \<and> run_lines post pm = Some p' \<and> p' = pm))"
proof (rule conjI)
  show "errorLog p' =
           (if \<exists>c \<in> set calls. clamps (call_set c) (call_from c) (call_to c) then [warning] else [])"
    using run_lines_log[OF assms] by (simp add: quiet_def)
next
  show "\<forall>pre c post.
               calls = pre @ c # post
               \<and> (\<forall>d \<in> set pre. \<not> clamps (call_set d) (call_from d) (call_to d))
               \<and> clamps (call_set c) (call_from c) (call_to c) \<longrightarrow>
               run_lines pre quiet = Some quiet
               \<and> (\<exists>pm. run_lines (pre @ [c]) quiet = Some pm
                      \<and> pm = \<lparr>warned = True, errorLog = [warning]\<rparr>
                      \<and> run_lines post pm = Some p' \<and> p' = pm)"
  proof (intro allI impI)
  fix pre c post
  assume h: "calls = pre @ c # post
               \<and> (\<forall>d \<in> set pre. \<not> clamps (call_set d) (call_from d) (call_to d))
               \<and> clamps (call_set c) (call_from c) (call_to c)"
  then have split: "calls = (pre @ [c]) @ post" by simp
  from assms obtain pm where pm: "run_lines (pre @ [c]) quiet = Some pm" and post: "run_lines post pm = Some p'"
    unfolding split run_lines_append by (auto split: option.splits)
  from pm obtain p0 where p0: "run_lines pre quiet = Some p0" and c: "run_lines [c] p0 = Some pm"
    unfolding run_lines_append by (auto split: option.splits)
  have "p0 = quiet"
    using run_lines_log[OF p0] h by (intro Process_eq) (auto simp: quiet_def)
  moreover have pmv: "pm = \<lparr>warned = True, errorLog = [warning]\<rparr>"
    using run_lines_log[OF pm] h by (intro Process_eq) (auto simp: quiet_def)
  moreover have "p' = pm"
    using run_lines_log[OF post] pmv by (intro Process_eq) auto
  ultimately show "run_lines pre quiet = Some quiet
               \<and> (\<exists>pm. run_lines (pre @ [c]) quiet = Some pm
                      \<and> pm = \<lparr>warned = True, errorLog = [warning]\<rparr>
                      \<and> run_lines post pm = Some p' \<and> p' = pm)"
    using p0 pm post by auto
  qed
qed

theorem warning_logged_once_witness:
  "run_lines [fast_shot, fast_shot] quiet = Some \<lparr>warned = True, errorLog = [warning]\<rparr>
   \<and> run_lines [] quiet = Some quiet
   \<and> run_lines [fast_shot] quiet = Some \<lparr>warned = True, errorLog = [warning]\<rparr>
   \<and> run_lines [fast_shot] \<lparr>warned = True, errorLog = [warning]\<rparr>
        = Some \<lparr>warned = True, errorLog = [warning]\<rparr>"
proof -
  have "run_lines [] quiet = Some quiet
        \<and> (\<exists>pm. run_lines ([] @ [fast_shot]) quiet = Some pm
              \<and> pm = \<lparr>warned = True, errorLog = [warning]\<rparr>
              \<and> run_lines [fast_shot] pm = Some \<lparr>warned = True, errorLog = [warning]\<rparr>
              \<and> \<lparr>warned = True, errorLog = [warning]\<rparr> = pm)"
    using warning_logged_once[OF fast_shot_run, THEN conjunct2, rule_format,
            of "[]" fast_shot "[fast_shot]"] fast_shot_clamps
    by (simp del: run_lines.simps)
  then show ?thesis
    using fast_shot_run by (auto simp del: run_lines.simps)
qed

subsection \<open>C8: the markers when the epoch wraps\<close>

lemma Length_le_iff: "0 \<le> c \<Longrightarrow> (Length a \<le> c) = (fst a * fst a + snd a * snd a \<le> c * c)"
proof -
  assume c: "0 \<le> c"
  have "c = sqrt (c * c)" using c by simp
  then have "(Length a \<le> c) = (sqrt (fst a * fst a + snd a * snd a) \<le> sqrt (c * c))"
    by (simp add: Length_def)
  then show ?thesis by (simp only: real_sqrt_le_iff)
qed

lemma Length_ge_iff: "0 \<le> c \<Longrightarrow> (c \<le> Length a) = (c * c \<le> fst a * fst a + snd a * snd a)"
proof -
  assume c: "0 \<le> c"
  have "c = sqrt (c * c)" using c by simp
  then have "(c \<le> Length a) = (sqrt (c * c) \<le> sqrt (fst a * fst a + snd a * snd a))"
    by (simp add: Length_def)
  then show ?thesis by (simp only: real_sqrt_le_iff)
qed

lemmas ring_defs = Ring_def Circle_def visit_ring_def bin_def bin_index_def to_int_def Let_def
  Point_minus_def Length_le_iff Length_ge_iff upto.simps

lemma word_next: "x \<noteq> - 1 \<Longrightarrow> (m::32 word) \<le> x \<Longrightarrow> m \<noteq> x + 1 \<and> m \<le> x + 1"
  by (meson inc_less_eq_triv_imp nle_le order.trans)

lemma Line_paths:
  assumes L: "Line w a b closestHit pGov target cs p = Some out"
    and initI: "I (start_scan cs closestHit)"
    and initJ: "J (start_scan cs closestHit)"
    and single: "\<And>cx cy e s. e \<in> set (sorted_entries cs) \<Longrightarrow> I s \<Longrightarrow>
                   I (visit_single w cs (segment_of cs a b pGov target) cx cy e s)"
    and stepped: "\<And>cx cy e s. e \<in> set (sorted_entries cs) \<Longrightarrow> J s \<Longrightarrow>
                   J (visit_stepped w (cs\<lparr>seenEpoch := seenEpoch cs + 1\<rparr>)
                        (segment_of cs a b pGov target) cx cy e s)"
  shows "(same_cell cs a (used_end cs a b) \<and>
            (\<exists>sc. out = finish_line closestHit cs (proc_after cs a b p) sc \<and> I sc))
       \<or> (\<not> same_cell cs a (used_end cs a b) \<and>
            (\<exists>sc. out = finish_line closestHit (cs\<lparr>seenEpoch := seenEpoch cs + 1\<rparr>)
                           (proc_after cs a b p) sc \<and> J sc))"
  using Line_shape[OF L]
proof (elim disjE conjE exE)
  assume sc: "same_cell cs a (used_end cs a b)"
    and o: "out = finish_line closestHit cs (proc_after cs a b p)
                  (fold (visit_single w cs (segment_of cs a b pGov target)
                           (drop_bit (SHIFT cs) (to_int (fst a))) (drop_bit (SHIFT cs) (to_int (snd a))))
                     (bin cs (bin_index cs (drop_bit (SHIFT cs) (to_int (fst a)))
                                (drop_bit (SHIFT cs) (to_int (snd a)))))
                     (start_scan cs closestHit))"
  have "I (fold (visit_single w cs (segment_of cs a b pGov target)
                           (drop_bit (SHIFT cs) (to_int (fst a))) (drop_bit (SHIFT cs) (to_int (snd a))))
                     (bin cs (bin_index cs (drop_bit (SHIFT cs) (to_int (fst a)))
                                (drop_bit (SHIFT cs) (to_int (snd a)))))
                     (start_scan cs closestHit))"
  proof (rule fold_invariant[where I = I])
    show "I (start_scan cs closestHit)" by fact
  next
    fix x s
    assume "x \<in> set (bin cs (bin_index cs (drop_bit (SHIFT cs) (to_int (fst a)))
                                (drop_bit (SHIFT cs) (to_int (snd a)))))" "I s"
    then show "I (visit_single w cs (segment_of cs a b pGov target)
                 (drop_bit (SHIFT cs) (to_int (fst a))) (drop_bit (SHIFT cs) (to_int (snd a))) x s)"
      using single bin_subset by blast
  qed
  with o sc show ?thesis by blast
next
  fix sc cells
  assume ns: "\<not> same_cell cs a (used_end cs a b)"
    and o: "out = finish_line closestHit (cs\<lparr>seenEpoch := seenEpoch cs + 1\<rparr>) (proc_after cs a b p) sc"
    and wk: "walked w (cs\<lparr>seenEpoch := seenEpoch cs + 1\<rparr>) (segment_of cs a b pGov target)
               (first_walk cs a (used_end cs a b) (start_scan cs closestHit)) sc cells"
  have "J sc"
  proof (rule walked_invariant[where I = J, OF wk])
    show "J (scan (first_walk cs a (used_end cs a b) (start_scan cs closestHit)))"
      using initJ by (simp add: first_walk_def Let_def)
  next
    fix cx cy e s
    assume "e \<in> set (sorted_entries (cs\<lparr>seenEpoch := seenEpoch cs + 1\<rparr>))" "J s"
    then show "J (visit_stepped w (cs\<lparr>seenEpoch := seenEpoch cs + 1\<rparr>)
                        (segment_of cs a b pGov target) cx cy e s)"
      using stepped by simp
  qed
  with o ns show ?thesis by blast
qed

lemma kept_refl: "kept old e old"
  by (simp add: kept_def)

lemma kept_update: "kept old e new \<Longrightarrow> kept old e (new[i := e])"
proof -
  assume k: "kept old e new"
  have "new[i := e] ! j = old ! j \<or> new[i := e] ! j = e" if "j < length old" for j
    using k that by (cases "j = i") (auto simp: kept_def)
  then show ?thesis using k by (simp add: kept_def)
qed

lemma kept_bound:
  assumes "kept old (x + 1) new" "\<forall>m \<in> set old. m \<le> x" "x \<noteq> - 1"
  shows "\<forall>m \<in> set new. m \<le> x + 1"
proof
  fix m assume "m \<in> set new"
  then obtain i where i: "i < length new" "new ! i = m" by (auto simp: in_set_conv_nth)
  with assms(1) have "m = old ! i \<or> m = x + 1" "i < length old" by (auto simp: kept_def)
  then show "m \<le> x + 1" using assms(2,3) word_next[of x "old ! i"] by auto
qed

lemma visit_ring_kept:
  assumes "kept old (seenEpoch (fst st)) (seen (fst st))"
  shows "kept old (seenEpoch (fst st)) (seen (fst (visit_ring w c i o' x y e st)))"
  using assms by (simp add: visit_ring_def Let_def kept_update)

lemma Ring_kept: "kept (seen cs) (seenEpoch cs + 1) (seen (fst (Ring w c i o' cs)))"
proof -
  let ?I = "\<lambda>st. seenEpoch (fst st) = seenEpoch cs + 1 \<and> kept (seen cs) (seenEpoch cs + 1) (seen (fst st))"
  have step: "?I (visit_ring w c i o' x y e st)" if "?I st" for x y e st
    using that visit_ring_kept[of "seen cs" st w c i o' x y e] by (simp add: visit_ring_seenEpoch)
  have "?I (Ring w c i o' cs)"
    unfolding Ring_def Let_def
    apply (rule fold_invariant[where I = ?I])
     apply (simp add: kept_refl)
    apply (rule fold_invariant[where I = ?I])
     apply assumption
    apply (rule fold_invariant[where I = ?I])
     apply assumption
    apply (erule step)
    done
  then show ?thesis by simp
qed

lemma Line_kept:
  assumes "Line w a b closestHit pGov target cs p = Some out"
  shows "(same_cell cs a (used_end cs a b) \<and> seen (cs_out out) = seen cs \<and> seenEpoch (cs_out out) = seenEpoch cs)
       \<or> (\<not> same_cell cs a (used_end cs a b) \<and> kept (seen cs) (seenEpoch cs + 1) (seen (cs_out out))
           \<and> seenEpoch (cs_out out) = seenEpoch cs + 1)"
proof -
  have "(same_cell cs a (used_end cs a b) \<and>
            (\<exists>sc. out = finish_line closestHit cs (proc_after cs a b p) sc \<and> marks sc = seen cs))
       \<or> (\<not> same_cell cs a (used_end cs a b) \<and>
            (\<exists>sc. out = finish_line closestHit (cs\<lparr>seenEpoch := seenEpoch cs + 1\<rparr>)
                           (proc_after cs a b p) sc \<and> kept (seen cs) (seenEpoch cs + 1) (marks sc)))"
    by (rule Line_paths[OF assms])
       (simp_all add: start_scan_def kept_refl visit_single_marks visit_stepped_def probe_marks kept_update)
  then show ?thesis by (auto simp: finish_line_def)
qed

lemma fold_place_all_bodies: "all_bodies (fold place es cs) = all_bodies cs"
  by (rule fold_invariant[where I = "\<lambda>c. all_bodies c = all_bodies cs"]) (simp_all add: place_def Let_def)

lemma Finish_seen:
  "seen (Finish cs) = replicate (length (all_bodies cs)) 0 \<and> seenEpoch (Finish cs) = 0"
  by (simp add: Finish_def Let_def fold_place_all_bodies)

text \<open>
  Claim C8 says that the \<^verbatim>\<open>seen\<close> vector is re-initialised when the increment of
  \<^verbatim>\<open>seenEpoch\<close> wraps, so that no stale marker equals the new epoch. The queries only
  increment: from epoch \<open>2 ^ 32 - 1\<close> a \<^verbatim>\<open>Ring\<close> query that meets no entry leaves the
  epoch 0 and the markers 7 and 0 as they were; and a \<^verbatim>\<open>Ring\<close> query around body 2
  returns nothing, since the marker 0 of body 2 equals the new epoch 0, where the same
  query on the fresh index returns body 2.
\<close>

theorem wrapped_epoch_keeps_markers:
  "seenEpoch (fst (Ring world2 (10, - 300) 0 5 wrapped_index)) = 0
   \<and> seen (fst (Ring world2 (10, - 300) 0 5 wrapped_index)) = [7, 0]
   \<and> result (fst (Ring world2 (400, 100) 0 5 wrapped_index)) = []
   \<and> result (fst (Ring world2 (400, 100) 0 5 index2)) = [2]"
  by (simp add: wrapped_index_def index2_value world2_def two_bodies_def ring_defs)


text \<open>
  C8 as amended: a \<^verbatim>\<open>Line\<close> or \<^verbatim>\<open>Ring\<close> query never re-initialises the \<^verbatim>\<open>seen\<close>
  vector, also when the increment of \<^verbatim>\<open>seenEpoch\<close> wraps: every slot keeps its value or
  receives the new epoch \<open>seenEpoch + 1\<close> (modulo \<open>2 ^ 32\<close>); on the single-cell path of
  \<^verbatim>\<open>Line\<close> vector and epoch stay as they are. Only \<^verbatim>\<open>Finish\<close> zeroes the vector and
  resets the epoch to 0. When no marker exceeds the epoch (as after \<^verbatim>\<open>Finish\<close>) and
  the increment does not wrap, no marker equals the new epoch, and after the query
  again no marker exceeds the epoch.
\<close>

theorem seen_markers_kept:
  "kept (seen cs) (seenEpoch cs + 1) (seen (fst (Ring w center inner outer cs)))
   \<and> (Line w a b closestHit pGov target cs p = Some out \<longrightarrow>
        seen (cs_out out) = seen cs \<and> seenEpoch (cs_out out) = seenEpoch cs
        \<or> kept (seen cs) (seenEpoch cs + 1) (seen (cs_out out)) \<and> seenEpoch (cs_out out) = seenEpoch cs + 1)
   \<and> ((\<forall>m \<in> set (seen cs). m \<le> seenEpoch cs) \<and> seenEpoch cs \<noteq> - 1 \<longrightarrow>
        (\<forall>m \<in> set (seen cs). m \<noteq> seenEpoch cs + 1)
        \<and> (\<forall>m \<in> set (seen (fst (Ring w center inner outer cs))).
              m \<le> seenEpoch (fst (Ring w center inner outer cs)))
        \<and> (Line w a b closestHit pGov target cs p = Some out \<longrightarrow>
              (\<forall>m \<in> set (seen (cs_out out)). m \<le> seenEpoch (cs_out out))))
   \<and> seen (Finish cs) = replicate (length (all_bodies cs)) 0 \<and> seenEpoch (Finish cs) = 0"
proof -
  note R = Ring_kept[of cs w center inner outer]
  have L: "seen (cs_out out) = seen cs \<and> seenEpoch (cs_out out) = seenEpoch cs
        \<or> kept (seen cs) (seenEpoch cs + 1) (seen (cs_out out)) \<and> seenEpoch (cs_out out) = seenEpoch cs + 1"
    if "Line w a b closestHit pGov target cs p = Some out"
    using Line_kept[OF that] by blast
  have B: "(\<forall>m \<in> set (seen cs). m \<noteq> seenEpoch cs + 1)
        \<and> (\<forall>m \<in> set (seen (fst (Ring w center inner outer cs))).
              m \<le> seenEpoch (fst (Ring w center inner outer cs)))
        \<and> (Line w a b closestHit pGov target cs p = Some out \<longrightarrow>
              (\<forall>m \<in> set (seen (cs_out out)). m \<le> seenEpoch (cs_out out)))"
    if le: "\<forall>m \<in> set (seen cs). m \<le> seenEpoch cs" and nw: "seenEpoch cs \<noteq> - 1"
  proof (intro conjI impI)
    show "\<forall>m \<in> set (seen cs). m \<noteq> seenEpoch cs + 1"
      using le nw word_next by blast
    show "\<forall>m \<in> set (seen (fst (Ring w center inner outer cs))).
              m \<le> seenEpoch (fst (Ring w center inner outer cs))"
      using kept_bound[OF R le nw] by (simp add: Ring_seenEpoch)
    assume "Line w a b closestHit pGov target cs p = Some out"
    from L[OF this] show "\<forall>m \<in> set (seen (cs_out out)). m \<le> seenEpoch (cs_out out)"
      using le kept_bound[OF _ le nw] by auto
  qed
  from R L B Finish_seen show ?thesis by blast
qed

theorem seen_markers_kept_witness:
  "\<exists>out. Line world2 (10, 100) (500, 100) (Some 1) None None index2 quiet = Some out
     \<and> seen index2 = [0, 0] \<and> seenEpoch index2 = 0
     \<and> seen (cs_out out) = [1, 0] \<and> seenEpoch (cs_out out) = 1
     \<and> kept (seen index2) (seenEpoch index2 + 1) (seen (cs_out out))
     \<and> (\<forall>m \<in> set (seen (cs_out out)). m \<le> seenEpoch (cs_out out))
     \<and> (\<forall>m \<in> set (seen (fst (Ring world2 (400, 100) 0 5 index2))).
            m \<le> seenEpoch (fst (Ring world2 (400, 100) 0 5 index2)))"
proof -
  let ?L = "Line world2 (10, 100) (500, 100) (Some 1) None None index2 quiet"
  have ev: "map_option (seen \<circ> cs_out) ?L = Some [1, 0]"
       "map_option (seenEpoch \<circ> cs_out) ?L = Some 1"
    by (simp_all add: index2_value world2_def two_bodies_def quiet_def line_defs)
  then obtain out where out: "?L = Some out" by auto
  have pre: "(\<forall>m \<in> set (seen index2). m \<le> seenEpoch index2) \<and> seenEpoch index2 \<noteq> - 1"
    by (simp add: index2_value)
  have s0: "seen index2 = [0, 0]" "seenEpoch index2 = 0"
    by (simp_all add: index2_value)
  from seen_markers_kept[of index2 world2 "(400, 100)" 0 5 "(10, 100)" "(500, 100)" "Some 1"
         None None quiet out] out pre ev s0
  show ?thesis by auto
qed

subsection \<open>C5: the entries of one body\<close>

lemma key_of_update [simp]:
  "key_of (cs\<lparr>added := a\<rparr>) = key_of cs" "key_of (cs\<lparr>counts := c\<rparr>) = key_of cs"
  "key_of (cs\<lparr>all_bodies := l\<rparr>) = key_of cs" "key_of (cs\<lparr>sorted_entries := s\<rparr>) = key_of cs"
  "key_of (cs\<lparr>seen := m\<rparr>) = key_of cs" "key_of (cs\<lparr>seenEpoch := ep\<rparr>) = key_of cs"
  "key_of (cs\<lparr>result := r\<rparr>) = key_of cs" "key_of (cs\<lparr>step := t\<rparr>) = key_of cs"
  by (simp_all add: key_of_def bin_index_def fun_eq_iff)

lemma add_cell_row:
  "fold (add_cell b y) xs cs =
     cs\<lparr>added := added cs @ map (\<lambda>x. \<lparr>body = b, seenIndex = length (all_bodies cs), cell_x = x, cell_y = y\<rparr>) xs,
        counts := fold bump (map (\<lambda>x. (bin_index cs x y + 2) mod 2 ^ 32) xs) (counts cs)\<rparr>"
proof (induction xs arbitrary: cs)
  case Nil
  then show ?case by simp
next
  case (Cons x xs)
  have [simp]: "bin_index (add_cell b y x cs) = bin_index cs"
    by (simp add: add_cell_def Let_def bin_index_def fun_eq_iff)
  show ?case
    by (simp add: Cons.IH) (simp add: add_cell_def Let_def bump_def[abs_def])
qed

lemma add_cell_box:
  "fold (\<lambda>y. fold (add_cell b y) xs) ys cs =
     cs\<lparr>added := added cs @ concat (map (\<lambda>y. map (\<lambda>x. \<lparr>body = b, seenIndex = length (all_bodies cs), cell_x = x, cell_y = y\<rparr>) xs) ys),
        counts := fold bump (map (slot_of cs)
                    (concat (map (\<lambda>y. map (\<lambda>x. \<lparr>body = b, seenIndex = length (all_bodies cs), cell_x = x, cell_y = y\<rparr>) xs) ys)))
                    (counts cs)\<rparr>"
proof (induction ys arbitrary: cs)
  case Nil
  then show ?case by simp
next
  case (Cons y ys)
  have [simp]: "slot_of (cs\<lparr>added := a, counts := c\<rparr>) = slot_of cs" for a c
    by (simp add: slot_of_def bin_index_def fun_eq_iff)
  show ?case
    apply (simp only: fold_simps comp_apply)
    apply (subst Cons.IH)
    apply (simp add: add_cell_row comp_def)
    apply (simp add: slot_of_def)
    done
qed

lemma Add_eq:
  "Add w b cs =
     (let new = box_entries b (length (all_bodies cs))
                  (drop_bit (SHIFT cs) (to_int (minus_double w (fst (Position (deref w b))) (Radius (deref w b)))))
                  (drop_bit (SHIFT cs) (to_int (plus_double w (fst (Position (deref w b))) (Radius (deref w b)))))
                  (drop_bit (SHIFT cs) (to_int (minus_double w (snd (Position (deref w b))) (Radius (deref w b)))))
                  (drop_bit (SHIFT cs) (to_int (plus_double w (snd (Position (deref w b))) (Radius (deref w b)))))
      in cs\<lparr>added := added cs @ new,
            counts := fold bump (map (slot_of cs) new) (counts cs),
            all_bodies := all_bodies cs @ [b]\<rparr>)"
  by (simp add: Add_def Let_def add_cell_box box_entries_def)

lemma fold_bump_length [simp]: "length (fold bump is c) = length c"
  by (induction "is" arbitrary: c) (simp_all add: bump_def)

lemma fold_bump_nth:
  "j < length c \<Longrightarrow> fold bump is c ! j = c ! j + count_list is j"
proof (induction "is" arbitrary: c)
  case Nil
  then show ?case by simp
next
  case (Cons i "is")
  have "bump i c ! j = c ! j + (if i = j then 1 else 0)"
    using Cons.prems by (simp add: bump_def nth_list_update)
  moreover have "j < length (bump i c)" using Cons.prems by (simp add: bump_def)
  ultimately show ?case using Cons.IH[of "bump i c"] by simp
qed

lemma count_list_map_filter:
  "count_list (map f es) j = length (filter (\<lambda>e. f e = j) es)"
  by (induction es) simp_all

lemma distinct_count_list:
  "distinct xs \<Longrightarrow> count_list xs x = (if x \<in> set xs then 1 else 0)"
  by (induction xs) auto

lemma box_cells:
  "map (\<lambda>e. (cell_y e, cell_x e)) (box_entries b n minX maxX minY maxY)
     = List.product [minY..maxY] [minX..maxX]"
  by (simp add: box_entries_def product_concat_map map_concat comp_def)

lemma grid2_value:
  "grid2 = \<lparr>CELL_SIZE = 256, SHIFT = 8, CELL_MASK = 255, CELLS = 2, WRAP_MASK = 1, step = 0,
      all_bodies = [], added = [], sorted_entries = [], counts = [0, 0, 0, 0, 0, 0],
      result = [], seen = [], seenEpoch = 0\<rparr>"
  by (simp add: grid2_def build_defs)

text \<open>
  Claim C5 takes the box of a body from \<open>floor ((px - r) / CELL_SIZE)\<close> and its
  analogues. The source converts the difference to \<^verbatim>\<open>int\<close> first, which truncates
  towards zero: for a body at (1/2, 1/2) of radius 1 the difference is -1/2 (exactly,
  also on doubles), the claim's \<open>minX\<close> is -1, and \<^verbatim>\<open>Add\<close> makes the one entry of
  cell (0, 0).
\<close>

theorem Add_truncates_towards_zero:
  "\<lfloor>(fst (Position (deref (one_body (1 / 2, 1 / 2) 1) 1)) - Radius (deref (one_body (1 / 2, 1 / 2) 1) 1))
      / real (CELL_SIZE grid2)\<rfloor> = - 1
   \<and> map (\<lambda>e. (cell_x e, cell_y e)) (added (Add (one_body (1 / 2, 1 / 2) 1) 1 grid2)) = [(0, 0)]"
  by (simp add: grid2_value one_body_def build_defs)

text \<open>
  C5 as amended: let \<open>minX\<close> be the floor of the quotient by \<^verbatim>\<open>CELL_SIZE\<close> of the
  difference \<open>px - r\<close> \<^emph>\<open>as the machine computes it on doubles\<close> and then
  \<^emph>\<open>truncates it towards zero to an integer\<close>, and \<open>maxX\<close>, \<open>minY\<close>, \<open>maxY\<close>
  analogously (with the machine's sum for the maxima). Then \<^verbatim>\<open>Add\<close> appends to the
  pending list exactly one entry for each grid cell of the box, row by row, and no
  other entry; every new entry carries the body and the dense index \<^verbatim>\<open>all.size()\<close>;
  each new entry increments the histogram slot \<^verbatim>\<open>gy * CELLS + gx + 2\<close> of its cell's
  wrapped bin (an index computed in 32-bit unsigned arithmetic); and the body is
  appended to \<^verbatim>\<open>all\<close>.
\<close>

theorem Add_entries:
  assumes "CELL_SIZE cs = 2 ^ SHIFT cs"
    and "minX = to_int (minus_double w (fst (Position (deref w b))) (Radius (deref w b))) div int (CELL_SIZE cs)"
    and "maxX = to_int (plus_double w (fst (Position (deref w b))) (Radius (deref w b))) div int (CELL_SIZE cs)"
    and "minY = to_int (minus_double w (snd (Position (deref w b))) (Radius (deref w b))) div int (CELL_SIZE cs)"
    and "maxY = to_int (plus_double w (snd (Position (deref w b))) (Radius (deref w b))) div int (CELL_SIZE cs)"
    and "new = box_entries b (length (all_bodies cs)) minX maxX minY maxY"
  shows "added (Add w b cs) = added cs @ new
       \<and> all_bodies (Add w b cs) = all_bodies cs @ [b]
       \<and> map (\<lambda>e. (cell_y e, cell_x e)) new = List.product [minY..maxY] [minX..maxX]
       \<and> distinct (map (\<lambda>e. (cell_y e, cell_x e)) new)
       \<and> (\<forall>x y. length (filter (\<lambda>e. cell_x e = x \<and> cell_y e = y) new)
                  = (if minX \<le> x \<and> x \<le> maxX \<and> minY \<le> y \<and> y \<le> maxY then 1 else 0))
       \<and> (\<forall>e \<in> set new. body e = b \<and> seenIndex e = length (all_bodies cs))
       \<and> length (counts (Add w b cs)) = length (counts cs)
       \<and> (\<forall>j < length (counts cs).
             counts (Add w b cs) ! j
               = counts cs ! j
                 + length (filter (\<lambda>e. (bin_index cs (cell_x e) (cell_y e) + 2) mod 2 ^ 32 = j) new))"
proof -
  have db: "drop_bit (SHIFT cs) k = k div int (CELL_SIZE cs)" for k :: int
    using assms(1) by (simp add: drop_bit_eq_div)
  have A: "Add w b cs = cs\<lparr>added := added cs @ new,
            counts := fold bump (map (slot_of cs) new) (counts cs),
            all_bodies := all_bodies cs @ [b]\<rparr>"
    unfolding Add_eq Let_def db assms(2-6) ..
  have cells: "map (\<lambda>e. (cell_y e, cell_x e)) new = List.product [minY..maxY] [minX..maxX]"
    unfolding assms(6) by (rule box_cells)
  have dist: "distinct (map (\<lambda>e. (cell_y e, cell_x e)) new)"
    unfolding cells by (simp add: distinct_product)
  have ent: "\<forall>e \<in> set new. body e = b \<and> seenIndex e = length (all_bodies cs)"
    unfolding assms(6) by (auto simp: box_entries_def)
  have one: "length (filter (\<lambda>e. cell_x e = x \<and> cell_y e = y) new)
                  = (if minX \<le> x \<and> x \<le> maxX \<and> minY \<le> y \<and> y \<le> maxY then 1 else 0)" for x y
  proof -
    have "length (filter (\<lambda>e. cell_x e = x \<and> cell_y e = y) new)
          = length (filter ((=) (y, x)) (map (\<lambda>e. (cell_y e, cell_x e)) new))"
      unfolding filter_map length_map comp_def
      by (rule arg_cong[where f = length], rule filter_cong) auto
    also have "\<dots> = count_list (List.product [minY..maxY] [minX..maxX]) (y, x)"
      unfolding cells by (simp add: count_list_eq_length_filter)
    also have "\<dots> = (if (y, x) \<in> set (List.product [minY..maxY] [minX..maxX]) then 1 else 0)"
      using distinct_product[of "[minY..maxY]" "[minX..maxX]"]
      by (simp add: distinct_count_list)
    finally show ?thesis by auto
  qed
  have cnt: "counts (Add w b cs) ! j
               = counts cs ! j
                 + length (filter (\<lambda>e. (bin_index cs (cell_x e) (cell_y e) + 2) mod 2 ^ 32 = j) new)"
    if "j < length (counts cs)" for j
    using that by (simp add: A fold_bump_nth count_list_map_filter slot_of_def)
  show ?thesis
    using cells dist ent one cnt by (simp add: A)
qed

theorem Add_entries_witness:
  "added (Add world2 1 grid2) = box_entries 1 0 0 1 (- 1) 1
   \<and> map (\<lambda>e. (cell_y e, cell_x e)) (box_entries 1 0 0 1 (- 1) 1)
       = [(- 1, 0), (- 1, 1), (0, 0), (0, 1), (1, 0), (1, 1)]
   \<and> counts (Add world2 1 grid2) = [0, 0, 1, 1, 2, 2]"
proof -
  have g: "CELL_SIZE grid2 = 2 ^ SHIFT grid2" by (simp add: grid2_value)
  have c: "counts (Add world2 1 grid2) = [0, 0, 1, 1, 2, 2]"
    by (simp add: grid2_value world2_def two_bodies_def build_defs)
  have p: "List.product [- 1..1] [0..1] = [(- 1, 0), (- 1, 1), (0, 0), (0, 1), (1, 0), (1, 1 :: int)]"
    by (simp add: upto.simps)
  from Add_entries[of grid2 0 world2 1 1 "- 1" 1 "box_entries 1 0 0 1 (- 1) 1", OF g] c p
  show ?thesis
    by (simp add: grid2_value world2_def two_bodies_def to_int_def)
qed

subsection \<open>C4: the table after Finish\<close>

lemma start_of_Suc:
  "start_of key (Suc k) xs = start_of key k xs + length (filter (\<lambda>e. key e = k) xs)"
  unfolding start_of_def
proof (induction xs)
  case Nil
  then show ?case by simp
next
  case (Cons x xs)
  then show ?case by (auto simp: less_Suc_eq)
qed

lemma start_of_mono: "k \<le> k' \<Longrightarrow> start_of key k xs \<le> start_of key k' xs"
  unfolding start_of_def
  by (induction xs) auto

lemma start_of_le_length: "start_of key k xs \<le> length xs"
  by (simp add: start_of_def)

lemma start_of_next_le:
  "k < k' \<Longrightarrow> start_of key k xs + length (filter (\<lambda>e. key e = k) xs) \<le> start_of key k' xs"
  using start_of_mono[of "Suc k" k' key xs] by (simp add: start_of_Suc)

lemma start_of_all: "\<forall>x \<in> set xs. key x < N \<Longrightarrow> start_of key N xs = length xs"
  by (simp add: start_of_def)

lemma scattered_step:
  assumes inv: "scattered key N (P @ e # R) P st"
    and keys: "\<forall>x \<in> set (P @ e # R). key x < N"
  shows "scattered key N (P @ e # R) (P @ [e]) (place_list key e st)"
proof -
  let ?A = "P @ e # R"
  let ?k = "key e"
  let ?cnt = "\<lambda>k xs. length (filter (\<lambda>x. key x = k) xs)"
  let ?pos = "start_of key ?k ?A + ?cnt ?k P"
  have kN: "?k < N" using keys by simp
  have lens: "length (fst st) = length ?A" "length (snd st) = N + 2"
    using inv by (simp_all add: scattered_def)
  have cntv: "snd st ! (k + 1) = start_of key k ?A + ?cnt k P" if "k < N" for k
    using inv that by (simp add: scattered_def)
  have srtv: "fst st ! (start_of key k ?A + j) = filter (\<lambda>x. key x = k) P ! j"
    if "k < N" "j < ?cnt k P" for k j
    using inv that by (simp add: scattered_def)
  have pos: "snd st ! (?k + 1) = ?pos" using cntv[OF kN] .
  have cntA: "?cnt k ?A = ?cnt k P + (if key e = k then 1 else 0) + ?cnt k R" for k
    by simp
  have pos_lt: "?pos < start_of key (Suc ?k) ?A"
    using cntA[of ?k] by (simp add: start_of_Suc)
  have pos_len: "?pos < length (fst st)"
    using pos_lt start_of_le_length[of key "Suc ?k" ?A] lens by linarith
  have sep: "start_of key k ?A + j \<noteq> ?pos" if "k \<noteq> ?k" "j < ?cnt k P" for k j
  proof (cases "k < ?k")
    case True
    have "start_of key k ?A + j < start_of key k ?A + ?cnt k ?A"
      using that(2) cntA[of k] by linarith
    also have "\<dots> \<le> start_of key ?k ?A" by (rule start_of_next_le[OF True])
    finally show ?thesis by linarith
  next
    case False
    with that(1) have gt: "?k < k" by simp
    have "?pos < start_of key ?k ?A + ?cnt ?k ?A" using cntA[of ?k] by simp
    also have "\<dots> \<le> start_of key k ?A" by (rule start_of_next_le[OF gt])
    finally show ?thesis by linarith
  qed
  have new_fst: "fst (place_list key e st) = (fst st)[?pos := e]"
    using pos by (simp add: place_list_def)
  have new_snd: "snd (place_list key e st) = (snd st)[?k + 1 := ?pos + 1]"
    using pos by (simp add: place_list_def)
  show ?thesis
    unfolding scattered_def
  proof (intro conjI allI impI)
    show "length (fst (place_list key e st)) = length ?A" by (simp add: new_fst lens)
    show "length (snd (place_list key e st)) = N + 2" by (simp add: new_snd lens)
  next
    fix k assume k: "k < N"
    show "snd (place_list key e st) ! (k + 1)
            = start_of key k ?A + length (filter (\<lambda>x. key x = k) (P @ [e]))"
    proof (cases "k = ?k")
      case True
      then show ?thesis using lens kN by (simp add: new_snd)
    next
      case False
      then show ?thesis using cntv[OF k] by (simp add: new_snd)
    qed
  next
    fix k j assume k: "k < N" and j: "j < length (filter (\<lambda>x. key x = k) (P @ [e]))"
    show "fst (place_list key e st) ! (start_of key k ?A + j) = filter (\<lambda>x. key x = k) (P @ [e]) ! j"
    proof (cases "k = ?k")
      case True
      show ?thesis
      proof (cases "j = ?cnt ?k P")
        case True
        with \<open>k = ?k\<close> show ?thesis using pos_len by (simp add: new_fst nth_append)
      next
        case False
        with j \<open>k = ?k\<close> have jl: "j < ?cnt ?k P" by simp
        then have "start_of key ?k ?A + j \<noteq> ?pos" by simp
        then show ?thesis using srtv[OF kN jl] jl \<open>k = ?k\<close> by (simp add: new_fst nth_append)
      qed
    next
      case False
      with j have jl: "j < ?cnt k P" by simp
      from sep[OF False jl] srtv[OF k jl] False show ?thesis
        by (simp add: new_fst)
    qed
  qed
qed

lemma scattered_fold:
  assumes "scattered key N (P @ R) P st" "\<forall>x \<in> set (P @ R). key x < N"
  shows "scattered key N (P @ R) (P @ R) (fold (place_list key) R st)"
  using assms
proof (induction R arbitrary: P st)
  case Nil
  then show ?case by simp
next
  case (Cons e R)
  have "scattered key N ((P @ [e]) @ R) (P @ [e]) (place_list key e st)"
    using scattered_step[OF Cons.prems] by simp
  from Cons.IH[OF this] Cons.prems(2) show ?case by simp
qed

lemma key_lt:
  assumes "grid_ok cs"
  shows "key_of cs e < CELLS cs * CELLS cs"
proof -
  let ?W = "int (WRAP_MASK cs)"
  have W: "WRAP_MASK cs + 1 = CELLS cs" using assms by (simp add: grid_ok_def)
  have a: "and k ?W \<le> ?W" "0 \<le> and k ?W" for k :: int
    by (simp_all add: AND_upper2)
  have x: "nat (and (cell_x e) ?W) < CELLS cs" using a[of "cell_x e"] W by linarith
  have y: "nat (and (cell_y e) ?W) + 1 \<le> CELLS cs" using a[of "cell_y e"] W by linarith
  have "nat (and (cell_y e) ?W) * CELLS cs + nat (and (cell_x e) ?W)
          < (nat (and (cell_y e) ?W) + 1) * CELLS cs"
    using x by simp
  also have "\<dots> \<le> CELLS cs * CELLS cs" using y by (rule mult_le_mono1)
  finally have "nat (and (cell_y e) ?W) * CELLS cs + nat (and (cell_x e) ?W) < CELLS cs * CELLS cs" .
  moreover have "(nat (and (cell_y e) ?W) * CELLS cs + nat (and (cell_x e) ?W)) mod 2 ^ 32
                   \<le> nat (and (cell_y e) ?W) * CELLS cs + nat (and (cell_x e) ?W)"
    by (rule mod_less_eq_dividend)
  ultimately show ?thesis by (simp add: key_of_def bin_index_def)
qed


lemma key_slots:
  assumes "grid_ok cs"
  shows "(key_of cs e + 1) mod 2 ^ 32 = key_of cs e + 1" "slot_of cs e = key_of cs e + 2"
proof -
  have "key_of cs e + 2 < 2 ^ 32"
    using key_lt[OF assms, of e] assms by (simp add: grid_ok_def)
  then show "(key_of cs e + 1) mod 2 ^ 32 = key_of cs e + 1" "slot_of cs e = key_of cs e + 2"
    by (simp_all add: slot_of_def key_of_def)
qed

lemma key_of_cong:
  "CELLS cs' = CELLS cs \<Longrightarrow> WRAP_MASK cs' = WRAP_MASK cs \<Longrightarrow> key_of cs' = key_of cs"
  by (simp add: key_of_def bin_index_def fun_eq_iff)

lemma Add_grid: "CELLS (Add w b cs) = CELLS cs" "WRAP_MASK (Add w b cs) = WRAP_MASK cs"
  by (simp_all add: Add_eq Let_def)

lemma grid_ok_Add: "grid_ok (Add w b cs) = grid_ok cs"
  by (simp add: grid_ok_def Add_grid)

lemma pending_ok_Clear:
  assumes "grid_ok cs"
  shows "pending_ok (Clear s cs)"
  using assms by (simp add: pending_ok_def Clear_def grid_ok_def)

lemma pending_ok_Add:
  assumes g: "grid_ok cs" and p: "pending_ok cs"
  shows "pending_ok (Add w b cs)"
proof -
  define new where "new = box_entries b (length (all_bodies cs))
                  (drop_bit (SHIFT cs) (to_int (minus_double w (fst (Position (deref w b))) (Radius (deref w b)))))
                  (drop_bit (SHIFT cs) (to_int (plus_double w (fst (Position (deref w b))) (Radius (deref w b)))))
                  (drop_bit (SHIFT cs) (to_int (minus_double w (snd (Position (deref w b))) (Radius (deref w b)))))
                  (drop_bit (SHIFT cs) (to_int (plus_double w (snd (Position (deref w b))) (Radius (deref w b)))))"
  have sl: "map (slot_of cs) es = map (\<lambda>e. key_of cs e + 2) es" for es
    by (simp add: key_slots(2)[OF g])
  have A: "Add w b cs = cs\<lparr>added := added cs @ new,
            counts := fold bump (map (\<lambda>e. key_of cs e + 2) new) (counts cs),
            all_bodies := all_bodies cs @ [b]\<rparr>"
    unfolding Add_eq Let_def new_def[symmetric] sl ..
  have k: "key_of (Add w b cs) = key_of cs" by (rule key_of_cong) (simp_all add: Add_grid)
  have c: "counts (Add w b cs) = fold bump (map (\<lambda>e. key_of cs e + 2) (added cs @ new))
                    (replicate (CELLS cs * CELLS cs + 2) 0)"
    using p by (simp add: A pending_ok_def)
  have ent: "\<forall>e \<in> set new. seenIndex e = length (all_bodies cs) \<and> body e = b"
    by (auto simp: new_def box_entries_def)
  have old: "\<forall>e \<in> set (added cs). seenIndex e < length (all_bodies cs) \<and>
                               body e = all_bodies cs ! seenIndex e"
    using p by (simp add: pending_ok_def)
  have dn: "distinct (map (\<lambda>e. (cell_y e, cell_x e)) new)"
    unfolding new_def box_cells by (simp add: distinct_product)
  have dnew: "distinct (map (\<lambda>e. (seenIndex e, cell_y e, cell_x e)) new)"
  proof -
    have "map (\<lambda>e. (cell_y e, cell_x e)) new = map snd (map (\<lambda>e. (seenIndex e, cell_y e, cell_x e)) new)"
      by (simp add: comp_def)
    with dn have "distinct (map snd (map (\<lambda>e. (seenIndex e, cell_y e, cell_x e)) new))"
      by simp
    then have "distinct (map (\<lambda>e. (seenIndex e, cell_y e, cell_x e)) new)
               \<and> inj_on snd (set (map (\<lambda>e. (seenIndex e, cell_y e, cell_x e)) new))"
      by (simp only: distinct_map)
    then show ?thesis by simp
  qed
  have dold: "distinct (map (\<lambda>e. (seenIndex e, cell_y e, cell_x e)) (added cs))"
    using p by (simp add: pending_ok_def)
  have disj: "(\<lambda>e. (seenIndex e, cell_y e, cell_x e)) ` set (added cs)
              \<inter> (\<lambda>e. (seenIndex e, cell_y e, cell_x e)) ` set new = {}"
  proof -
    have "seenIndex e \<noteq> seenIndex e'" if "e \<in> set (added cs)" "e' \<in> set new" for e e'
    proof -
      from old that(1) have "seenIndex e < length (all_bodies cs)" by simp
      moreover from ent that(2) have "seenIndex e' = length (all_bodies cs)" by simp
      ultimately show ?thesis by simp
    qed
    then show ?thesis by blast
  qed
  have 1: "counts (Add w b cs) = fold bump (map (\<lambda>e. key_of cs e + 2) (added (Add w b cs)))
                    (replicate (CELLS (Add w b cs) * CELLS (Add w b cs) + 2) 0)"
    using c by (simp add: A)
  have 2: "\<forall>e \<in> set (added (Add w b cs)). seenIndex e < length (all_bodies (Add w b cs)) \<and>
                               body e = all_bodies (Add w b cs) ! seenIndex e"
  proof
    fix e assume "e \<in> set (added (Add w b cs))"
    then consider "e \<in> set (added cs)" | "e \<in> set new" by (auto simp: A)
    then show "seenIndex e < length (all_bodies (Add w b cs)) \<and>
                               body e = all_bodies (Add w b cs) ! seenIndex e"
    proof cases
      case 1
      with old have "seenIndex e < length (all_bodies cs)" "body e = all_bodies cs ! seenIndex e"
        by simp_all
      then show ?thesis by (simp add: A nth_append)
    next
      case 2
      with ent show ?thesis by (simp add: A nth_append)
    qed
  qed
  have 3: "distinct (map (\<lambda>e. (seenIndex e, cell_y e, cell_x e)) (added (Add w b cs)))"
    using dnew dold disj by (simp add: A)
  show ?thesis
    unfolding pending_ok_def k using 1 2 3 by blast
qed

lemma pending_ok_build:
  assumes "grid_ok cs"
  shows "grid_ok (fold (Add w) bs (Clear s cs)) \<and> pending_ok (fold (Add w) bs (Clear s cs))"
proof (rule fold_invariant[where I = "\<lambda>c. grid_ok c \<and> pending_ok c"])
  show "grid_ok (Clear s cs) \<and> pending_ok (Clear s cs)"
    using assms pending_ok_Clear[OF assms] by (simp add: grid_ok_def Clear_def)
next
  fix x c assume "grid_ok c \<and> pending_ok c"
  then show "grid_ok (Add w x c) \<and> pending_ok (Add w x c)"
    by (simp add: grid_ok_Add pending_ok_Add)
qed

lemma all_bodies_fold_Add: "all_bodies (fold (Add w) bs cs) = all_bodies cs @ bs"
  by (induction bs arbitrary: cs) (simp_all add: Add_eq Let_def)

lemma partial_sum_length [simp]: "length (partial_sum a xs) = length xs"
  by (induction xs arbitrary: a) simp_all

lemma partial_sum_nth:
  "j < length xs \<Longrightarrow> partial_sum a xs ! j = a + sum_list (take (Suc j) xs)"
proof (induction xs arbitrary: a j)
  case Nil
  then show ?case by simp
next
  case (Cons x xs)
  then show ?case by (cases j) simp_all
qed

lemma histogram_nth:
  assumes "c = fold bump (map (\<lambda>e. key e + 2) A) (replicate (N + 2) 0)"
  shows "length c = N + 2" "c ! 0 = 0" "c ! 1 = 0"
    "k < N \<Longrightarrow> c ! (k + 2) = length (filter (\<lambda>e. key e = k) A)"
proof -
  show "length c = N + 2" by (simp add: assms)
  have z: "count_list (map (\<lambda>e. key e + 2) A) j = 0" if "j < 2" for j
    using that by (induction A) auto
  show "c ! 0 = 0" using z[of 0] by (simp add: assms fold_bump_nth)
  show "c ! 1 = 0" using z[of 1] by (simp add: assms fold_bump_nth)
  show "c ! (k + 2) = length (filter (\<lambda>e. key e = k) A)" if "k < N"
    using that by (simp add: assms fold_bump_nth count_list_map_filter)
qed

lemma histogram_prefix:
  assumes "c = fold bump (map (\<lambda>e. key e + 2) A) (replicate (N + 2) 0)" "k \<le> N"
  shows "sum_list (take (k + 2) c) = start_of key k A"
  using assms(2)
proof (induction k)
  case 0
  from histogram_nth(1)[OF assms(1)] obtain a r0 where c: "c = a # r0" by (cases c) auto
  with histogram_nth(1)[OF assms(1)] obtain b r where r0: "r0 = b # r" by (cases r0) auto
  have "sum_list (take (0 + 2) c) = c ! 0 + c ! 1" by (simp add: c r0)
  also have "\<dots> = 0" using histogram_nth(2,3)[OF assms(1)] by simp
  also have "0 = start_of key 0 A" by (simp add: start_of_def)
  finally show ?case .
next
  case (Suc k)
  then have k: "k < N" by simp
  have "take (Suc k + 2) c = take (k + 2) c @ [c ! (k + 2)]"
    using histogram_nth(1)[OF assms(1)] k by (simp add: take_Suc_conv_app_nth)
  then show ?case
    using Suc.IH k histogram_nth(4)[OF assms(1) k] by (simp add: start_of_Suc)
qed

lemma place_list_zero: "snd (fold (place_list key) es st) ! 0 = snd st ! 0"
  by (rule fold_invariant[where I = "\<lambda>s. snd s ! 0 = snd st ! 0"]) (simp_all add: place_list_def)

lemma place_grid: "CELLS (place e cs) = CELLS cs" "WRAP_MASK (place e cs) = WRAP_MASK cs"
  "added (place e cs) = added cs" "all_bodies (place e cs) = all_bodies cs"
  by (simp_all add: place_def Let_def)

lemma fold_place_list:
  assumes "grid_ok cs"
  shows "sorted_entries (fold place es cs) = fst (fold (place_list (key_of cs)) es (sorted_entries cs, counts cs))
   \<and> counts (fold place es cs) = snd (fold (place_list (key_of cs)) es (sorted_entries cs, counts cs))
   \<and> added (fold place es cs) = added cs \<and> all_bodies (fold place es cs) = all_bodies cs
   \<and> CELLS (fold place es cs) = CELLS cs \<and> WRAP_MASK (fold place es cs) = WRAP_MASK cs"
  using assms
proof (induction es arbitrary: cs)
  case Nil
  then show ?case by simp
next
  case (Cons e es)
  have k: "key_of (place e cs) = key_of cs"
    by (rule key_of_cong) (simp_all add: place_grid)
  have g: "grid_ok (place e cs)" using Cons.prems by (simp add: grid_ok_def place_grid)
  have m: "(bin_index cs (cell_x e) (cell_y e) + 1) mod 2 ^ 32 = key_of cs e + 1"
    using key_slots(1)[OF Cons.prems, of e] by (simp add: key_of_def)
  have p: "(sorted_entries (place e cs), counts (place e cs))
            = place_list (key_of cs) e (sorted_entries cs, counts cs)"
    unfolding place_def place_list_def Let_def m by simp
  show ?case
    using Cons.IH[OF g] by (simp add: k p place_grid)
qed

lemma start_of_cover:
  assumes "i < start_of key N A"
  shows "\<exists>b < N. start_of key b A \<le> i \<and> i < start_of key (Suc b) A"
  using assms
proof (induction N)
  case 0
  then show ?case by (simp add: start_of_def)
next
  case (Suc N)
  show ?case
  proof (cases "i < start_of key N A")
    case True
    from Suc.IH[OF this] show ?thesis using less_Suc_eq by auto
  next
    case False
    with Suc.prems show ?thesis by (intro exI[of _ N]) simp
  qed
qed

lemma Finish_table:
  assumes g: "grid_ok cs" and p: "pending_ok cs"
  shows "table_ok (Finish cs)"
proof -
  let ?N = "CELLS cs * CELLS cs"
  let ?A = "added cs"
  let ?key = "key_of cs"
  let ?c1 = "partial_sum 0 (counts cs)"
  let ?s0 = "replicate (length ?A) default_Entry"
  let ?st = "fold (place_list ?key) ?A (?s0, ?c1)"
  let ?cs2 = "cs\<lparr>counts := ?c1, sorted_entries := ?s0\<rparr>"
  have N: "?N + 2 < 2 ^ 32" using g by (simp add: grid_ok_def)
  have keys: "\<forall>x \<in> set ([] @ ?A). ?key x < ?N" using key_lt[OF g] by simp
  have h: "counts cs = fold bump (map (\<lambda>e. ?key e + 2) ?A) (replicate (?N + 2) 0)"
    using p by (simp add: pending_ok_def)
  note hn = histogram_nth[OF h]
  have c1: "?c1 ! (k + 1) = start_of ?key k ?A" if "k \<le> ?N" for k
    using that hn(1) histogram_prefix[OF h that] by (simp add: partial_sum_nth)
  have c10: "?c1 ! 0 = 0" using hn(1,2) by (simp add: partial_sum_nth take_Suc_conv_app_nth)
  have init: "scattered ?key ?N ([] @ ?A) [] (?s0, ?c1)"
    using c1 hn(1) by (simp add: scattered_def)
  have fin: "scattered ?key ?N ?A ?A ?st"
    using scattered_fold[OF init keys] by simp
  have g2: "grid_ok ?cs2" using g by (simp add: grid_ok_def)
  have k2: "key_of ?cs2 = ?key" by (rule key_of_cong) simp_all
  have F: "sorted_entries (Finish cs) = fst ?st" "counts (Finish cs) = snd ?st"
      "added (Finish cs) = ?A" "all_bodies (Finish cs) = all_bodies cs"
      "seen (Finish cs) = replicate (length (all_bodies cs)) 0"
      "CELLS (Finish cs) = CELLS cs" "WRAP_MASK (Finish cs) = WRAP_MASK cs"
    using fold_place_list[OF g2, of ?A] by (simp_all add: Finish_def Let_def k2)
  have G: "key_of (Finish cs) = ?key" "grid_ok (Finish cs)"
  proof -
    show "key_of (Finish cs) = ?key" by (rule key_of_cong) (simp_all add: F)
    show "grid_ok (Finish cs)" using g by (simp add: F grid_ok_def)
  qed
  have len: "length (fst ?st) = length ?A" "length (snd ?st) = ?N + 2"
    using fin by (simp_all add: scattered_def)
  have cnt: "snd ?st ! b = start_of ?key b ?A" if "b \<le> ?N" for b
  proof (cases b)
    case 0
    then show ?thesis using place_list_zero[of ?key ?A "(?s0, ?c1)"] c10 by (simp add: start_of_def)
  next
    case (Suc k)
    with that have k: "k < ?N" by simp
    then have "snd ?st ! (k + 1) = start_of ?key k ?A + length (filter (\<lambda>e. ?key e = k) ?A)"
      using fin by (simp add: scattered_def)
    then show ?thesis using Suc by (simp add: start_of_Suc)
  qed
  have srt: "fst ?st ! (start_of ?key b ?A + j) = filter (\<lambda>e. ?key e = b) ?A ! j"
    if "b < ?N" "j < length (filter (\<lambda>e. ?key e = b) ?A)" for b j
    using fin that by (simp add: scattered_def)
  have bins: "bin (Finish cs) b = filter (\<lambda>e. ?key e = b) ?A" if b: "b < ?N" for b
  proof -
    let ?n = "length (filter (\<lambda>e. ?key e = b) ?A)"
    have 1: "counts (Finish cs) ! b = start_of ?key b ?A"
      and 2: "counts (Finish cs) ! (b + 1) = start_of ?key b ?A + ?n"
      using cnt[of b] cnt[of "Suc b"] b by (simp_all add: F start_of_Suc)
    have le: "start_of ?key b ?A + ?n \<le> length ?A"
      using start_of_le_length[of ?key "Suc b" ?A] by (simp add: start_of_Suc)
    have w: "(b + 1) mod 2 ^ 32 = b + 1" using b N by simp
    have B: "bin (Finish cs) b = take ?n (drop (start_of ?key b ?A) (fst ?st))"
      unfolding bin_def w 1 2 by (simp add: F)
    show ?thesis
      unfolding B
    proof (rule nth_equalityI)
      show "length (take ?n (drop (start_of ?key b ?A) (fst ?st))) = ?n"
        using le len by simp
      fix j assume "j < length (take ?n (drop (start_of ?key b ?A) (fst ?st)))"
      then have j: "j < ?n" by simp
      then show "take ?n (drop (start_of ?key b ?A) (fst ?st)) ! j = filter (\<lambda>e. ?key e = b) ?A ! j"
        using srt[OF b j] le len by simp
    qed
  qed
  have sets: "set (fst ?st) = set ?A"
  proof
    show "set (fst ?st) \<subseteq> set ?A"
    proof
      fix e assume "e \<in> set (fst ?st)"
      then obtain i where i: "i < length ?A" "fst ?st ! i = e"
        using len by (auto simp: in_set_conv_nth)
      have "start_of ?key ?N ?A = length ?A" using keys by (simp add: start_of_all)
      with i start_of_cover[of i ?key ?N ?A] obtain b where
        b: "b < ?N" "start_of ?key b ?A \<le> i" "i < start_of ?key (Suc b) ?A"
        by auto
      let ?j = "i - start_of ?key b ?A"
      have j: "?j < length (filter (\<lambda>e. ?key e = b) ?A)"
        using b by (simp add: start_of_Suc)
      have "e = filter (\<lambda>e. ?key e = b) ?A ! ?j"
        using srt[OF b(1) j] b(2) i by simp
      then have "e \<in> set (filter (\<lambda>e. ?key e = b) ?A)"
        using j nth_mem by blast
      then show "e \<in> set ?A" by simp
    qed
  next
    show "set ?A \<subseteq> set (fst ?st)"
    proof
      fix e assume e: "e \<in> set ?A"
      then have k: "?key e < ?N" using keys by simp
      have "e \<in> set (filter (\<lambda>x. ?key x = ?key e) ?A)" using e by simp
      then have "e \<in> set (bin (Finish cs) (?key e))" using bins[OF k] by simp
      then show "e \<in> set (fst ?st)" using bin_subset[of "Finish cs"] by (auto simp: F)
    qed
  qed
  have ent: "\<forall>e \<in> set ?A. seenIndex e < length (all_bodies cs) \<and>
                               body e = all_bodies cs ! seenIndex e"
    and dist: "distinct (map (\<lambda>e. (seenIndex e, cell_y e, cell_x e)) ?A)"
    using p by (simp_all add: pending_ok_def)
  show ?thesis
    unfolding table_ok_def G(1) F
  proof (intro conjI)
    show "grid_ok (Finish cs)" by (rule G(2))
    show "length (snd ?st) = ?N + 2" by (rule len(2))
    show "length (fst ?st) = length ?A" by (rule len(1))
    show "\<forall>b \<le> ?N. snd ?st ! b = start_of ?key b ?A" using cnt by blast
    show "\<forall>b < ?N. bin (Finish cs) b = filter (\<lambda>e. ?key e = b) ?A" using bins by blast
    show "set (fst ?st) = set ?A" by (rule sets)
    show "\<forall>e \<in> set ?A. seenIndex e < length (all_bodies cs) \<and>
                               body e = all_bodies cs ! seenIndex e" by (rule ent)
    show "distinct (map (\<lambda>e. (seenIndex e, cell_y e, cell_x e)) ?A)" by (rule dist)
    show "length (replicate (length (all_bodies cs)) (0 :: 32 word)) = length (all_bodies cs)" by simp
  qed
qed

lemma build_table:
  assumes "grid_ok cs0"
  shows "table_ok (build w s bs cs0)"
    and "added (build w s bs cs0) = added (fold (Add w) bs (Clear s cs0))"
    and "all_bodies (build w s bs cs0) = bs"
    and "CELLS (build w s bs cs0) = CELLS cs0" and "WRAP_MASK (build w s bs cs0) = WRAP_MASK cs0"
proof -
  let ?c = "fold (Add w) bs (Clear s cs0)"
  have gp: "grid_ok ?c" "pending_ok ?c" using pending_ok_build[OF assms] by simp_all
  show "table_ok (build w s bs cs0)" unfolding build_def by (rule Finish_table[OF gp])
  have g2: "grid_ok (?c\<lparr>counts := c, sorted_entries := so\<rparr>)" for c so
    using gp(1) by (simp add: grid_ok_def)
  have F: "added (Finish ?c) = added ?c" "all_bodies (Finish ?c) = all_bodies ?c"
     "CELLS (Finish ?c) = CELLS ?c" "WRAP_MASK (Finish ?c) = WRAP_MASK ?c"
    using fold_place_list[OF g2] by (simp_all add: Finish_def Let_def)
  have C: "CELLS ?c = CELLS cs0 \<and> WRAP_MASK ?c = WRAP_MASK cs0"
    by (rule fold_invariant[where I = "\<lambda>c. CELLS c = CELLS cs0 \<and> WRAP_MASK c = WRAP_MASK cs0"])
       (simp_all add: Clear_def Add_grid)
  show "added (build w s bs cs0) = added ?c" unfolding build_def by (rule F)
  show "all_bodies (build w s bs cs0) = bs"
    unfolding build_def F all_bodies_fold_Add by (simp add: Clear_def)
  show "CELLS (build w s bs cs0) = CELLS cs0" "WRAP_MASK (build w s bs cs0) = WRAP_MASK cs0"
    unfolding build_def F using C by simp_all
qed


lemma cells_of_le: "cells_of c \<le> max c 1"
proof (induction c rule: cells_of.induct)
  case (1 c)
  show ?case
  proof (cases "c div 2 = 0")
    case True
    then show ?thesis by (subst cells_of.simps) (simp del: cells_of.simps)
  next
    case False
    from 1[OF False] False have "cells_of (c div 2) \<le> c div 2"
      by (simp del: cells_of.simps)
    then have "2 * cells_of (c div 2) \<le> c" by linarith
    with False show ?thesis by (subst cells_of.simps) (simp del: cells_of.simps)
  qed
qed

lemma cells_of_pos: "0 < cells_of c"
proof (induction c rule: cells_of.induct)
  case (1 c)
  then show ?case by (subst cells_of.simps) (simp del: cells_of.simps)
qed

lemma CollisionSet_new_grid_ok:
  assumes "cellCount < 65536"
  shows "grid_ok (CollisionSet_new cellSize cellCount seen0 epoch0)"
proof -
  have "cells_of cellCount \<le> max cellCount 1" by (rule cells_of_le)
  then have "cells_of cellCount \<le> 65535"
    using assms by (simp add: max_def del: cells_of.simps split: if_splits)
  then have "cells_of cellCount * cells_of cellCount \<le> 65535 * 65535"
    using mult_le_mono by blast
  moreover have "0 < cells_of cellCount" by (rule cells_of_pos)
  ultimately show ?thesis
    by (simp add: grid_ok_def CollisionSet_new_def Clear_def del: cells_of.simps shift_of.simps)
qed



subsection \<open>C3: one test per body and query\<close>

lemma later_refl: "later cs cs"
  by (simp add: later_def)

lemma later_trans: "later a b \<Longrightarrow> later b c \<Longrightarrow> later a c"
  by (simp add: later_def)

lemma later_bin: "later cs0 cs \<Longrightarrow> bin cs = bin cs0"
  by (simp add: later_def bin_def fun_eq_iff)

lemma later_key: "later cs0 cs \<Longrightarrow> key_of cs = key_of cs0"
  by (rule key_of_cong) (simp_all add: later_def)

lemma table_ok_later:
  assumes "table_ok cs0" "later cs0 cs"
  shows "table_ok cs"
proof -
  have f: "CELLS cs = CELLS cs0" "WRAP_MASK cs = WRAP_MASK cs0" "all_bodies cs = all_bodies cs0"
    "added cs = added cs0" "sorted_entries cs = sorted_entries cs0" "counts cs = counts cs0"
    "length (seen cs) = length (seen cs0)"
    using assms(2) by (simp_all add: later_def)
  have g: "grid_ok cs = grid_ok cs0" by (simp add: grid_ok_def f)
  show ?thesis
    using assms(1) unfolding table_ok_def later_bin[OF assms(2)] later_key[OF assms(2)] f g .
qed

lemma table_entries:
  assumes "table_ok cs" "e \<in> set (sorted_entries cs)"
  shows "seenIndex e < length (seen cs)" "seenIndex e < length (all_bodies cs)"
    "body e = all_bodies cs ! seenIndex e"
  using assms by (simp_all add: table_ok_def)

lemma bin_index_lt:
  assumes "grid_ok cs"
  shows "bin_index cs x y < CELLS cs * CELLS cs"
  using key_lt[OF assms, of "\<lparr>body = 0, seenIndex = 0, cell_x = x, cell_y = y\<rparr>"]
  by (simp add: key_of_def)

lemma table_bin:
  assumes "table_ok cs"
  shows "bin cs (bin_index cs x y) = filter (\<lambda>e. key_of cs e = bin_index cs x y) (added cs)"
proof -
  have "grid_ok cs" using assms by (simp add: table_ok_def)
  from bin_index_lt[OF this, of x y] assms show ?thesis by (simp add: table_ok_def)
qed

lemma visit_ring_once:
  assumes i: "seenIndex e < length (seen (fst st))"
    and m: "\<forall>x \<in> set (snd st). seen (fst st) ! seenIndex x = seenEpoch (fst st)"
    and d: "distinct (map seenIndex (snd st))"
  shows "\<forall>x \<in> set (snd (visit_ring w c i o' cx cy e st)).
           seen (fst (visit_ring w c i o' cx cy e st)) ! seenIndex x
             = seenEpoch (fst (visit_ring w c i o' cx cy e st))"
    and "distinct (map seenIndex (snd (visit_ring w c i o' cx cy e st)))"
    and "set (snd (visit_ring w c i o' cx cy e st)) \<subseteq> insert e (set (snd st))"
    and "later (fst st) (fst (visit_ring w c i o' cx cy e st))"
    and "seenEpoch (fst (visit_ring w c i o' cx cy e st)) = seenEpoch (fst st)"
proof -
  let ?v = "visit_ring w c i o' cx cy e st"
  let ?E = "seenEpoch (fst st)"
  show "\<forall>x \<in> set (snd ?v). seen (fst ?v) ! seenIndex x = seenEpoch (fst ?v)"
    using i m by (auto simp: visit_ring_def Let_def nth_list_update)
  have new: "seenIndex e \<notin> seenIndex ` set (snd st)" if "seen (fst st) ! seenIndex e \<noteq> ?E"
    using m that by force
  show "distinct (map seenIndex (snd ?v))"
    using d new by (auto simp: visit_ring_def Let_def)
  show "set (snd ?v) \<subseteq> insert e (set (snd st))"
    by (auto simp: visit_ring_def Let_def)
  show "later (fst st) (fst ?v)"
    by (simp add: visit_ring_def Let_def later_def)
  show "seenEpoch (fst ?v) = ?E"
    by (simp add: visit_ring_def Let_def)
qed

lemma Ring_once:
  assumes "\<forall>e \<in> set (sorted_entries cs). seenIndex e < length (seen cs)"
  shows "distinct (map seenIndex (snd (Ring w c i o' cs)))"
    and "set (snd (Ring w c i o' cs)) \<subseteq> set (sorted_entries cs)"
    and "later cs (fst (Ring w c i o' cs))"
proof -
  let ?I = "\<lambda>st. later cs (fst st) \<and>
                 (\<forall>x \<in> set (snd st). seen (fst st) ! seenIndex x = seenEpoch (fst st)) \<and>
                 distinct (map seenIndex (snd st)) \<and> set (snd st) \<subseteq> set (sorted_entries cs)"
  have step: "?I (visit_ring w c i o' cx cy e st)"
    if e: "e \<in> set (sorted_entries cs)" and I: "?I st" for cx cy e st
  proof -
    have "seenIndex e < length (seen (fst st))" using assms e I by (simp add: later_def)
    from visit_ring_once[OF this, of w c i o' cx cy] I e show ?thesis
      by (auto intro: later_trans)
  qed
  have cell: "?I (fold (visit_ring w c i o' cx cy) (bin cs b) st)" if "?I st" for cx cy b st
  proof (rule fold_invariant[where I = ?I])
    show "?I st" by fact
  next
    fix e s assume "e \<in> set (bin cs b)" "?I s"
    then show "?I (visit_ring w c i o' cx cy e s)" using step bin_subset by blast
  qed
  have row: "?I (fold (\<lambda>x. fold (visit_ring w c i o' x cy) (bin cs (bin_index cs x cy))) xs st)"
    if "?I st" for cy xs st
  proof (rule fold_invariant[where I = ?I])
    show "?I st" by fact
  next
    fix x s assume "?I s"
    then show "?I (fold (visit_ring w c i o' x cy) (bin cs (bin_index cs x cy)) s)" by (rule cell)
  qed
  have box: "?I (fold (\<lambda>y. fold (\<lambda>x. fold (visit_ring w c i o' x y) (bin cs (bin_index cs x y))) xs) ys st)"
    if "?I st" for xs ys st
  proof (rule fold_invariant[where I = ?I])
    show "?I st" by fact
  next
    fix y s assume "?I s"
    then show "?I (fold (\<lambda>x. fold (visit_ring w c i o' x y) (bin cs (bin_index cs x y))) xs s)"
      by (rule row)
  qed
  have init: "?I (cs\<lparr>seenEpoch := seenEpoch cs + 1, result := []\<rparr>, [])"
    by (simp add: later_def)
  have "?I (Ring w c i o' cs)"
    unfolding Ring_def Let_def by (rule box[OF init])
  then show "distinct (map seenIndex (snd (Ring w c i o' cs)))"
    and "set (snd (Ring w c i o' cs)) \<subseteq> set (sorted_entries cs)"
    and "later cs (fst (Ring w c i o' cs))"
    by simp_all
qed

lemma visit_stepped_once:
  assumes i: "seenIndex e < length (marks s)"
    and m: "\<forall>x \<in> set (tested s). marks s ! seenIndex (fst x) = seenEpoch cs"
    and d: "distinct (map (\<lambda>x. seenIndex (fst x)) (tested s))"
  shows "\<forall>x \<in> set (tested (visit_stepped w cs q cx cy e s)).
           marks (visit_stepped w cs q cx cy e s) ! seenIndex (fst x) = seenEpoch cs"
    and "distinct (map (\<lambda>x. seenIndex (fst x)) (tested (visit_stepped w cs q cx cy e s)))"
    and "fst ` set (tested (visit_stepped w cs q cx cy e s)) \<subseteq> insert e (fst ` set (tested s))"
    and "length (marks (visit_stepped w cs q cx cy e s)) = length (marks s)"
proof -
  let ?v = "visit_stepped w cs q cx cy e s"
  show "\<forall>x \<in> set (tested ?v). marks ?v ! seenIndex (fst x) = seenEpoch cs"
    using i m by (auto simp: visit_stepped_def probe_def Let_def nth_list_update)
  have new: "seenIndex e \<notin> (\<lambda>x. seenIndex (fst x)) ` set (tested s)"
    if "marks s ! seenIndex e \<noteq> seenEpoch cs"
    using m that by force
  show "distinct (map (\<lambda>x. seenIndex (fst x)) (tested ?v))"
    using d new by (auto simp: visit_stepped_def probe_def Let_def)
  show "fst ` set (tested ?v) \<subseteq> insert e (fst ` set (tested s))"
    by (auto simp: visit_stepped_def probe_def Let_def)
  show "length (marks ?v) = length (marks s)"
    by (simp add: visit_stepped_def probe_def Let_def)
qed

lemma tested_visit_single:
  "map fst (tested (fold (visit_single w cs q cx cy) es sc))
     = map fst (tested sc) @ filter (\<lambda>e. cell_x e = cx \<and> cell_y e = cy \<and> \<not> skips w q (body e)) es"
  by (induction es arbitrary: sc) (simp_all add: visit_single_def probe_def Let_def)

lemma distinct_cell:
  assumes "distinct (map (\<lambda>e. (seenIndex e, cell_y e, cell_x e)) es)"
    and "\<And>e. P e \<Longrightarrow> cell_x e = cx \<and> cell_y e = cy"
  shows "distinct (map seenIndex (filter P es))"
  using assms(1)
proof (induction es)
  case Nil
  then show ?case by simp
next
  case (Cons e es)
  let ?t = "\<lambda>e. (seenIndex e, cell_y e, cell_x e)"
  from Cons.prems have d: "distinct (map ?t es)" and n: "?t e \<notin> ?t ` set es" by simp_all
  note IH = Cons.IH[OF d]
  show ?case
  proof (cases "P e")
    case False
    then show ?thesis using IH by simp
  next
    case True
    have "seenIndex e \<notin> seenIndex ` set (filter P es)"
    proof
      assume "seenIndex e \<in> seenIndex ` set (filter P es)"
      then obtain e' where e': "e' \<in> set es" "P e'" "seenIndex e = seenIndex e'" by auto
      from assms(2)[OF True] assms(2)[OF e'(2)] e'(3) have "?t e = ?t e'" by simp
      then have "?t e \<in> ?t ` set es" using e'(1) by (rule image_eqI)
      with n show False by contradiction
    qed
    then show ?thesis using IH True by simp
  qed
qed

lemma Line_once:
  assumes t: "table_ok cs" and L: "Line w a b closestHit pGov target cs p = Some out"
  shows "distinct (map (\<lambda>x. seenIndex (fst x)) (line_tested out))"
    and "fst ` set (line_tested out) \<subseteq> set (sorted_entries cs)"
    and "later cs (cs_out out)"
proof -
  let ?q = "segment_of cs a b pGov target"
  let ?cs1 = "cs\<lparr>seenEpoch := seenEpoch cs + 1\<rparr>"
  let ?gx = "drop_bit (SHIFT cs) (to_int (fst a))"
  let ?gy = "drop_bit (SHIFT cs) (to_int (snd a))"
  have all: "distinct (map (\<lambda>x. seenIndex (fst x)) (line_tested out))
             \<and> fst ` set (line_tested out) \<subseteq> set (sorted_entries cs) \<and> later cs (cs_out out)"
    using Line_shape[OF L]
  proof (elim disjE conjE exE)
    assume o: "out = finish_line closestHit cs (proc_after cs a b p)
                  (fold (visit_single w cs ?q ?gx ?gy) (bin cs (bin_index cs ?gx ?gy))
                     (start_scan cs closestHit))"
    let ?sc = "fold (visit_single w cs ?q ?gx ?gy) (bin cs (bin_index cs ?gx ?gy))
                     (start_scan cs closestHit)"
    let ?P = "\<lambda>e. cell_x e = ?gx \<and> cell_y e = ?gy \<and> \<not> skips w ?q (body e)"
    have tst: "map fst (tested ?sc) = filter ?P (bin cs (bin_index cs ?gx ?gy))"
      by (simp add: tested_visit_single start_scan_def)
    have "distinct (map (\<lambda>e. (seenIndex e, cell_y e, cell_x e)) (added cs))"
      using t by (simp add: table_ok_def)
    then have "distinct (map (\<lambda>e. (seenIndex e, cell_y e, cell_x e)) (bin cs (bin_index cs ?gx ?gy)))"
      unfolding table_bin[OF t] by (rule distinct_map_filter)
    then have "distinct (map seenIndex (filter ?P (bin cs (bin_index cs ?gx ?gy))))"
      by (rule distinct_cell) simp
    then have 1: "distinct (map (\<lambda>x. seenIndex (fst x)) (tested ?sc))"
      unfolding tst[symmetric] by (simp add: comp_def)
    have "set (map fst (tested ?sc)) \<subseteq> set (bin cs (bin_index cs ?gx ?gy))"
      unfolding tst by simp
    then have 2: "fst ` set (tested ?sc) \<subseteq> set (sorted_entries cs)"
      using bin_subset[of cs] by auto
    have 3: "marks ?sc = seen cs"
      by (simp add: fold_visit_single_marks start_scan_def)
    show ?thesis using 1 2 3 by (simp add: o finish_line_def later_def)
  next
    fix sc cells
    assume o: "out = finish_line closestHit ?cs1 (proc_after cs a b p) sc"
      and wk: "walked w ?cs1 ?q (first_walk cs a (used_end cs a b) (start_scan cs closestHit)) sc cells"
    let ?I = "\<lambda>s :: Scan. length (marks s) = length (seen cs) \<and>
                  (\<forall>x \<in> set (tested s). marks s ! seenIndex (fst x) = seenEpoch ?cs1) \<and>
                  distinct (map (\<lambda>x. seenIndex (fst x)) (tested s)) \<and>
                  fst ` set (tested s) \<subseteq> set (sorted_entries cs)"
    have "?I sc"
    proof (rule walked_invariant[where I = ?I, OF wk])
      show "?I (scan (first_walk cs a (used_end cs a b) (start_scan cs closestHit)))"
        by (simp add: first_walk_def Let_def start_scan_def)
    next
      fix cx cy e and s :: Scan
      assume e: "e \<in> set (sorted_entries ?cs1)" and I: "?I s"
      then have idx: "seenIndex e < length (marks s)" using table_entries(1)[OF t, of e] by simp
      from I have m: "\<forall>x \<in> set (tested s). marks s ! seenIndex (fst x) = seenEpoch ?cs1"
        and d: "distinct (map (\<lambda>x. seenIndex (fst x)) (tested s))"
        and sub: "fst ` set (tested s) \<subseteq> set (sorted_entries cs)"
        and len: "length (marks s) = length (seen cs)" by simp_all
      note v = visit_stepped_once[OF idx m d, of w ?q cx cy]
      have "fst ` set (tested (visit_stepped w ?cs1 ?q cx cy e s)) \<subseteq> set (sorted_entries cs)"
        using v(3) sub e by (simp add: subset_iff) blast
      with v(1,2,4) len show "?I (visit_stepped w ?cs1 ?q cx cy e s)" by simp
    qed
    then show ?thesis by (simp add: o finish_line_def later_def)
  qed
  then show "distinct (map (\<lambda>x. seenIndex (fst x)) (line_tested out))"
    and "fst ` set (line_tested out) \<subseteq> set (sorted_entries cs)"
    and "later cs (cs_out out)"
    by simp_all
qed

lemma distinct_bodies:
  assumes t: "table_ok cs" and d: "distinct (all_bodies cs)"
    and s: "set es \<subseteq> set (sorted_entries cs)" and i: "distinct (map seenIndex es)"
  shows "distinct (map body es)"
proof -
  have eq: "map body es = map (\<lambda>k. all_bodies cs ! k) (map seenIndex es)"
    using s table_entries(3)[OF t] by (auto simp: subset_iff)
  have inj: "inj_on (\<lambda>k. all_bodies cs ! k) (set (map seenIndex es))"
  proof (rule inj_onI)
    fix j k assume j: "j \<in> set (map seenIndex es)" and k: "k \<in> set (map seenIndex es)"
      and e: "all_bodies cs ! j = all_bodies cs ! k"
    have "j < length (all_bodies cs)" "k < length (all_bodies cs)"
      using j k s table_entries(2)[OF t] by auto
    with e d show "j = k" by (simp add: nth_eq_iff_index_eq)
  qed
  show ?thesis
    unfolding eq
  proof (rule distinct_map[THEN iffD2], rule conjI)
    show "distinct (map seenIndex es)" by fact
    show "inj_on (\<lambda>k. all_bodies cs ! k) (set (map seenIndex es))" by fact
  qed
qed

lemma twice_index_value:
  "twice_index =
     \<lparr>CELL_SIZE = 256, SHIFT = 8, CELL_MASK = 255, CELLS = 2, WRAP_MASK = 1, step = 0,
      all_bodies = [1, 1],
      added =
        [\<lparr>body = 1, seenIndex = 0, cell_x = 0, cell_y = - 1\<rparr>,
         \<lparr>body = 1, seenIndex = 0, cell_x = 1, cell_y = - 1\<rparr>,
         \<lparr>body = 1, seenIndex = 0, cell_x = 0, cell_y = 0\<rparr>,
         \<lparr>body = 1, seenIndex = 0, cell_x = 1, cell_y = 0\<rparr>,
         \<lparr>body = 1, seenIndex = 0, cell_x = 0, cell_y = 1\<rparr>,
         \<lparr>body = 1, seenIndex = 0, cell_x = 1, cell_y = 1\<rparr>,
         \<lparr>body = 1, seenIndex = 1, cell_x = 0, cell_y = - 1\<rparr>,
         \<lparr>body = 1, seenIndex = 1, cell_x = 1, cell_y = - 1\<rparr>,
         \<lparr>body = 1, seenIndex = 1, cell_x = 0, cell_y = 0\<rparr>,
         \<lparr>body = 1, seenIndex = 1, cell_x = 1, cell_y = 0\<rparr>,
         \<lparr>body = 1, seenIndex = 1, cell_x = 0, cell_y = 1\<rparr>,
         \<lparr>body = 1, seenIndex = 1, cell_x = 1, cell_y = 1\<rparr>],
      sorted_entries =
        [\<lparr>body = 1, seenIndex = 0, cell_x = 0, cell_y = 0\<rparr>,
         \<lparr>body = 1, seenIndex = 1, cell_x = 0, cell_y = 0\<rparr>,
         \<lparr>body = 1, seenIndex = 0, cell_x = 1, cell_y = 0\<rparr>,
         \<lparr>body = 1, seenIndex = 1, cell_x = 1, cell_y = 0\<rparr>,
         \<lparr>body = 1, seenIndex = 0, cell_x = 0, cell_y = - 1\<rparr>,
         \<lparr>body = 1, seenIndex = 0, cell_x = 0, cell_y = 1\<rparr>,
         \<lparr>body = 1, seenIndex = 1, cell_x = 0, cell_y = - 1\<rparr>,
         \<lparr>body = 1, seenIndex = 1, cell_x = 0, cell_y = 1\<rparr>,
         \<lparr>body = 1, seenIndex = 0, cell_x = 1, cell_y = - 1\<rparr>,
         \<lparr>body = 1, seenIndex = 0, cell_x = 1, cell_y = 1\<rparr>,
         \<lparr>body = 1, seenIndex = 1, cell_x = 1, cell_y = - 1\<rparr>,
         \<lparr>body = 1, seenIndex = 1, cell_x = 1, cell_y = 1\<rparr>],
      counts = [0, 2, 4, 8, 12, 12],
      result = [], seen = [0, 0], seenEpoch = 0\<rparr>"
  by (simp add: twice_index_def grid2_def world2_def two_bodies_def build_defs)

text \<open>
  Claim C3 says that no body is passed to \<^verbatim>\<open>Collide\<close> or to the acceptance test of
  \<^verbatim>\<open>Ring\<close> more than once within a query. The markers are kept per call of \<^verbatim>\<open>Add\<close>
  (\<^verbatim>\<open>seenIndex\<close> is \<^verbatim>\<open>all.size()\<close> at the time of the call), not per body: when body 1 was
  added twice, \<^verbatim>\<open>Ring\<close> runs its acceptance test on body 1 twice, and both paths of
  \<^verbatim>\<open>Line\<close> ask the mask of body 1 twice.
\<close>

theorem body_added_twice_tested_twice:
  "twice_index = Finish (Add world2 1 (Add world2 1 (Clear 0 grid2)))
   \<and> map body (snd (Ring world2 (100, 100) 0 10 twice_index)) = [1, 1]
   \<and> map_option (\<lambda>out. map (\<lambda>x. body (fst x)) (line_tested out))
        (Line world2 (10, 100) (200, 100) None None None twice_index quiet) = Some [1, 1]
   \<and> map_option (\<lambda>out. map (\<lambda>x. body (fst x)) (line_tested out))
        (Line world2 (10, 100) (500, 100) None None None twice_index quiet) = Some [1, 1]"
proof -
  have "twice_index = Finish (Add world2 1 (Add world2 1 (Clear 0 grid2)))"
    by (simp add: twice_index_def build_def)
  moreover have "map body (snd (Ring world2 (100, 100) 0 10 twice_index)) = [1, 1]"
    by (simp add: twice_index_value world2_def two_bodies_def ring_defs)
  moreover have "map_option (\<lambda>out. map (\<lambda>x. body (fst x)) (line_tested out))
        (Line world2 (10, 100) (200, 100) None None None twice_index quiet) = Some [1, 1]"
    by (simp add: twice_index_value world2_def two_bodies_def quiet_def line_defs)
  moreover have "map_option (\<lambda>out. map (\<lambda>x. body (fst x)) (line_tested out))
        (Line world2 (10, 100) (500, 100) None None None twice_index quiet) = Some [1, 1]"
    by (simp add: twice_index_value world2_def two_bodies_def quiet_def line_defs)
  ultimately show ?thesis by blast
qed

text \<open>
  C3 as amended: on an index built by \<^verbatim>\<open>Clear\<close>, a sequence of \<^verbatim>\<open>Add\<close> for the bodies \<open>bs\<close>
  and \<^verbatim>\<open>Finish\<close> (in a grid whose \<^verbatim>\<open>WRAP_MASK\<close> is \<^verbatim>\<open>CELLS - 1\<close> and whose
  \<^verbatim>\<open>CELLS * CELLS + 2\<close> fits in 32 bits), in whatever state earlier queries left it, every
  query \<^verbatim>\<open>Ring\<close> (hence \<^verbatim>\<open>Circle\<close>) and every call of \<^verbatim>\<open>Line\<close> that returns tests no dense
  index, that is no call of \<^verbatim>\<open>Add\<close>, more than once, also when the entries of that call
  occupy several of the scanned cells; a tested entry of dense index \<open>k\<close> carries the
  \<open>k\<close>-th added body. Hence, when no body was added twice, no body is tested more than
  once within the query. The query leaves an index of the same kind behind.
\<close>

theorem tested_once:
  assumes "WRAP_MASK cs0 + 1 = CELLS cs0" and "CELLS cs0 * CELLS cs0 + 2 < 2 ^ 32"
    and "later (build w0 s bs cs0) cs"
  shows "distinct (map seenIndex (snd (Ring w c i o' cs)))
       \<and> (\<forall>e \<in> set (snd (Ring w c i o' cs)). seenIndex e < length bs \<and> body e = bs ! seenIndex e)
       \<and> (distinct bs \<longrightarrow> distinct (map body (snd (Ring w c i o' cs))))
       \<and> snd (Circle w c r cs) = snd (Ring w c 0 r cs)
       \<and> later (build w0 s bs cs0) (fst (Ring w c i o' cs))
       \<and> (\<forall>out. Line w a b closestHit pGov target cs p = Some out \<longrightarrow>
            distinct (map (\<lambda>x. seenIndex (fst x)) (line_tested out))
          \<and> (\<forall>x \<in> set (line_tested out).
                seenIndex (fst x) < length bs \<and> body (fst x) = bs ! seenIndex (fst x))
          \<and> (distinct bs \<longrightarrow> distinct (map (\<lambda>x. body (fst x)) (line_tested out)))
          \<and> later (build w0 s bs cs0) (cs_out out))"
proof -
  have g0: "grid_ok cs0" using assms(1,2) by (simp add: grid_ok_def)
  have t: "table_ok cs" by (rule table_ok_later[OF build_table(1)[OF g0] assms(3)])
  have bs: "all_bodies cs = bs" using assms(3) build_table(3)[OF g0, of w0 s bs] by (simp add: later_def)
  have idx: "\<forall>e \<in> set (sorted_entries cs). seenIndex e < length (seen cs)"
    using table_entries(1)[OF t] by blast
  note R = Ring_once[OF idx, of w c i o']
  have Re: "\<forall>e \<in> set (snd (Ring w c i o' cs)). seenIndex e < length bs \<and> body e = bs ! seenIndex e"
    using R(2) table_entries(2,3)[OF t] bs by auto
  have Rb: "distinct (map body (snd (Ring w c i o' cs)))" if "distinct bs"
    using distinct_bodies[OF t _ R(2) R(1)] that bs by simp
  have Rl: "later (build w0 s bs cs0) (fst (Ring w c i o' cs))"
    by (rule later_trans[OF assms(3) R(3)])
  have C: "snd (Circle w c r cs) = snd (Ring w c 0 r cs)" by (simp add: Circle_def)
  have L: "distinct (map (\<lambda>x. seenIndex (fst x)) (line_tested out))
          \<and> (\<forall>x \<in> set (line_tested out).
                seenIndex (fst x) < length bs \<and> body (fst x) = bs ! seenIndex (fst x))
          \<and> (distinct bs \<longrightarrow> distinct (map (\<lambda>x. body (fst x)) (line_tested out)))
          \<and> later (build w0 s bs cs0) (cs_out out)"
    if out: "Line w a b closestHit pGov target cs p = Some out" for out
  proof -
    note O = Line_once[OF t out]
    have s: "set (map fst (line_tested out)) \<subseteq> set (sorted_entries cs)" using O(2) by simp
    have d: "distinct (map seenIndex (map fst (line_tested out)))" using O(1) by (simp add: comp_def)
    have e: "\<forall>x \<in> set (line_tested out).
                seenIndex (fst x) < length bs \<and> body (fst x) = bs ! seenIndex (fst x)"
      using O(2) table_entries(2,3)[OF t] bs by auto
    have b: "distinct (map (\<lambda>x. body (fst x)) (line_tested out))" if "distinct bs"
      using distinct_bodies[OF t _ s d] that bs by (simp add: comp_def)
    show ?thesis using O(1) e b later_trans[OF assms(3) O(3)] by blast
  qed
  show ?thesis using R(1) Re Rb C Rl L by blast
qed

theorem tested_once_witness:
  "map body (snd (Ring world2 (400, 100) 0 5 index2)) = [1, 2]
   \<and> distinct (map body (snd (Ring world2 (400, 100) 0 5 index2)))
   \<and> distinct (map seenIndex (snd (Ring world2 (400, 100) 0 5 index2)))"
proof -
  have g: "WRAP_MASK grid2 + 1 = CELLS grid2" "CELLS grid2 * CELLS grid2 + 2 < 2 ^ 32"
    by (simp_all add: grid2_value)
  have l: "later (build world2 0 [1, 2] grid2) index2" by (simp add: index2_def later_refl)
  have v: "map body (snd (Ring world2 (400, 100) 0 5 index2)) = [1, 2]"
    by (simp add: index2_value world2_def two_bodies_def ring_defs)
  have d: "distinct [1, 2 :: nat]" by simp
  from tested_once[OF g l, of world2 "(400, 100)" 0 5] v d show ?thesis by blast
qed

end
